theory Spec2Isabelle
  imports Main "HOL-Library.Char_ord" "HOL-Library.List_Lexorder"
begin

section \<open>Batches, transactions and signatures\<close>

text \<open>
  The multi-signature state of \<^verbatim>\<open>mst_state.cpp\<close> holds shared pointers to transaction
  batches (\<^verbatim>\<open>DataType\<close>) and mutates the batches it points to when it merges signatures.
  The pointers are addresses into an explicit store, so that every alias of a batch (the
  set of members, the expiry index, a diff state returned earlier, the caller's own
  pointer) sees the merge. A batch owns its transactions: the store is indexed by batch.

  The batch, transaction and signature classes, the completer, the container types of the
  state and \<^verbatim>\<open>set_difference\<close> are declared in headers that are not part of the sources at
  hand; they are modelled from the specification, each marked as such.
\<close>

type_synonym hash_hex = string
type_synonym time = nat
type_synonym addr = nat

text \<open>Modelled from the spec: a signature is a pair of a public key and signed data.\<close>

record signature =
  publicKey :: string
  signedData :: string

text \<open>Modelled from the spec: a transaction carries its quorum and its signatures, at most
  one per public key.\<close>

record transaction =
  quorum :: nat
  signatures :: "signature list"

text \<open>Modelled from the spec: a batch is an ordered sequence of transactions with one
  reduced hash (kept here as its hex string, the form \<^verbatim>\<open>getBatches\<close> compares) and a
  creation time.\<close>

record batch =
  reducedHash :: hash_hex
  created_at :: time
  transactions :: "transaction list"

type_synonym store = "addr \<Rightarrow> batch"

text \<open>Modelled from the spec: \<^verbatim>\<open>Transaction.add_signature(signed_data, public_key)\<close> returns
  false, and changes nothing, if the public key already has a signature on the
  transaction; otherwise it adds the signature and returns true.\<close>

definition addSignature :: "transaction \<Rightarrow> string \<Rightarrow> string \<Rightarrow> transaction \<times> bool" where
  "addSignature tx sd pk =
     (if pk \<in> set (map publicKey (signatures tx)) then (tx, False)
      else (tx\<lparr>signatures := signatures tx @ [\<lparr>publicKey = pk, signedData = sd\<rparr>]\<rparr>, True))"

text \<open>Modelled from the spec: full structural equality of two batches (\<^verbatim>\<open>*l == *r\<close> in
  \<^verbatim>\<open>operator==\<close>): the same reduced hash and the same signature sets per transaction.\<close>

definition tx_eq :: "transaction \<Rightarrow> transaction \<Rightarrow> bool" where
  "tx_eq t u \<longleftrightarrow> quorum t = quorum u \<and> set (signatures t) = set (signatures u)"

definition batch_eq :: "batch \<Rightarrow> batch \<Rightarrow> bool" where
  "batch_eq b c \<longleftrightarrow>
     reducedHash b = reducedHash c \<and> list_all2 tx_eq (transactions b) (transactions c)"

text \<open>Modelled from the spec: the completer decides completion and expiry, and defines the
  key the expiry index is ordered by.\<close>

record Completer =
  is_complete :: "batch \<Rightarrow> bool"
  is_expired :: "batch \<Rightarrow> time \<Rightarrow> bool"
  expiry_key :: "batch \<Rightarrow> nat"

section \<open>The state\<close>

text \<open>
  \<^verbatim>\<open>internal_state_\<close> is an unordered set of batch pointers whose hash and equality are
  those of the reduced hash: a list of addresses, searched by the reduced hash of the
  batch an address points to, into which an address is inserted only if no element has its
  reduced hash. Its iteration order, which C++ leaves unspecified, is the order of the list.

  Modelled from the spec: \<^verbatim>\<open>index_\<close> is a priority queue of the same pointers whose top is an
  entry of least expiry key (its comparator is declared in the header of the state, which
  is not among the sources at hand). It is a list; the top is its first element of least
  key, pushing appends, popping removes the top. The key of a batch does not change while
  the batch is in the index: the specification fixes it at insertion, and a merge changes
  signatures only.
\<close>

record mst_state =
  completer :: Completer
  internal_state :: "addr list"
  index :: "addr list"

datatype error =
  DerefEnd \<comment> \<open>an \<^verbatim>\<open>end()\<close> iterator is dereferenced or erased\<close>
  | ZipLengthMismatch \<comment> \<open>\<^verbatim>\<open>boost::combine\<close> over ranges of different lengths\<close>

fun find_batch :: "store \<Rightarrow> addr list \<Rightarrow> addr \<Rightarrow> addr option" where
  "find_batch h [] b = None"
| "find_batch h (a # as) b =
     (if reducedHash (h a) = reducedHash (h b) then Some a else find_batch h as b)"

definition set_insert :: "store \<Rightarrow> addr list \<Rightarrow> addr \<Rightarrow> addr list" where
  "set_insert h xs b = (case find_batch h xs b of None \<Rightarrow> xs @ [b] | Some _ \<Rightarrow> xs)"

fun index_top :: "Completer \<Rightarrow> store \<Rightarrow> addr list \<Rightarrow> addr option" where
  "index_top c h [] = None"
| "index_top c h (a # as) =
     (case index_top c h as of
        None \<Rightarrow> Some a
      | Some b \<Rightarrow> if expiry_key c (h b) < expiry_key c (h a) then Some b else Some a)"

definition MstState :: "store \<Rightarrow> Completer \<Rightarrow> addr list \<Rightarrow> mst_state" where
  "MstState h c txs =
     \<lparr>completer = c, internal_state = foldl (set_insert h) [] txs, index = txs\<rparr>"

definition empty_state :: "Completer \<Rightarrow> mst_state" where
  "empty_state c = \<lparr>completer = c, internal_state = [], index = []\<rparr>"

definition rawInsert :: "store \<Rightarrow> mst_state \<Rightarrow> addr \<Rightarrow> mst_state" where
  "rawInsert h s b =
     s\<lparr>internal_state := set_insert h (internal_state s) b, index := index s @ [b]\<rparr>"

subsection \<open>Merging signatures\<close>

text \<open>
  \<^verbatim>\<open>mergeSignaturesInBatch\<close> walks the transactions of target and donor in step and offers
  every signature of the donor's transaction to the target's. \<^verbatim>\<open>boost::combine\<close> requires
  ranges of one length; on ranges of different lengths the iteration runs past the end of
  the shorter one, which is the error \<open>ZipLengthMismatch\<close>. The target is written to the
  store. When target and donor are one object every signature is already present and
  nothing is written.
\<close>

fun accumulate_signatures :: "signature list \<Rightarrow> transaction \<Rightarrow> bool \<Rightarrow> transaction \<times> bool" where
  "accumulate_signatures [] tx acc = (tx, acc)"
| "accumulate_signatures (s # ss) tx acc =
     (case addSignature tx (signedData s) (publicKey s) of
        (tx', r) \<Rightarrow> accumulate_signatures ss tx' (r \<or> acc))"

fun merge_combined :: "transaction list \<Rightarrow> transaction list \<Rightarrow> bool \<Rightarrow> error + transaction list \<times> bool" where
  "merge_combined [] [] ins = Inr ([], ins)"
| "merge_combined (t # ts) (d # ds) ins =
     (case accumulate_signatures (signatures d) t ins of
        (t', ins') \<Rightarrow>
          (case merge_combined ts ds ins' of
             Inl e \<Rightarrow> Inl e
           | Inr (ts', r) \<Rightarrow> Inr (t' # ts', r)))"
| "merge_combined _ _ ins = Inl ZipLengthMismatch"

definition mergeSignaturesInBatch :: "store \<Rightarrow> addr \<Rightarrow> addr \<Rightarrow> error + store \<times> bool" where
  "mergeSignaturesInBatch h target donor =
     (case merge_combined (transactions (h target)) (transactions (h donor)) False of
        Inl e \<Rightarrow> Inl e
      | Inr (txs, r) \<Rightarrow> Inr (h(target := (h target)\<lparr>transactions := txs\<rparr>), r))"

subsection \<open>Insertion\<close>

text \<open>
  \<^verbatim>\<open>insertOne\<close> works on \<open>self\<close> and on the state \<open>out\<close> it reports to. Its
  \<^verbatim>\<open>out_state += found\<close> is \<^verbatim>\<open>operator+=\<close> of \<open>out\<close> with a batch, that is \<^verbatim>\<open>insertOne\<close> of
  \<open>out\<close> reporting to a fresh empty state, whose report and status are dropped. The function
  returns the store, \<open>self\<close>, \<open>out\<close> and the completion status.
\<close>

function insertOne :: "store \<Rightarrow> mst_state \<Rightarrow> mst_state \<Rightarrow> addr \<Rightarrow> error + store \<times> mst_state \<times> mst_state \<times> bool" where
  "insertOne h self out rhs_batch =
     (case find_batch h (internal_state self) rhs_batch of
        None \<Rightarrow> Inr (h, rawInsert h self rhs_batch, rawInsert h out rhs_batch, False)
      | Some found \<Rightarrow>
          (case mergeSignaturesInBatch h found rhs_batch of
             Inl e \<Rightarrow> Inl e
           | Inr (h1, inserted_new_signatures) \<Rightarrow>
               if is_complete (completer self) (h1 found) then
                 (case insertOne h1 out (empty_state (completer out)) found of
                    Inl e \<Rightarrow> Inl e
                  | Inr (h2, out', _, _) \<Rightarrow>
                      (case find_batch h2 (internal_state self) found of
                         None \<Rightarrow> Inl DerefEnd
                       | Some it \<Rightarrow>
                           Inr (h2, self\<lparr>internal_state := remove1 it (internal_state self)\<rparr>,
                                out', True)))
               else if inserted_new_signatures then Inr (h1, self, rawInsert h1 out found, False)
               else Inr (h1, self, out, False)))"
  by pat_completeness auto
termination
  by (relation "measure (\<lambda>(h, self, out, b).
        2 * (if internal_state self = [] then 0 else 1)
          + (if internal_state out = [] then 0 else (1::nat)))")
     (auto simp: empty_state_def split: if_splits)

declare insertOne.simps [simp del]

subsection \<open>Public operations\<close>

definition operator_plus_batch :: "store \<Rightarrow> mst_state \<Rightarrow> addr \<Rightarrow> error + store \<times> mst_state \<times> mst_state \<times> bool" where
  "operator_plus_batch h self rhs = insertOne h self (empty_state (completer self)) rhs"

fun insert_each :: "store \<Rightarrow> mst_state \<Rightarrow> mst_state \<Rightarrow> addr list \<Rightarrow> error + store \<times> mst_state \<times> mst_state" where
  "insert_each h self result [] = Inr (h, self, result)"
| "insert_each h self result (rhs_tx # rest) =
     (case insertOne h self result rhs_tx of
        Inl e \<Rightarrow> Inl e
      | Inr (h', self', result', _) \<Rightarrow> insert_each h' self' result' rest)"

text \<open>\<^verbatim>\<open>operator+=\<close> with a state folds the members of \<open>rhs\<close>, in their iteration order,
  into \<open>self\<close>, all reporting to one result state. \<open>rhs\<close> is another object than \<open>self\<close>.\<close>

definition operator_plus_state :: "store \<Rightarrow> mst_state \<Rightarrow> mst_state \<Rightarrow> error + store \<times> mst_state \<times> mst_state" where
  "operator_plus_state h self rhs =
     insert_each h self (empty_state (completer self)) (internal_state rhs)"

text \<open>Modelled from the spec: \<^verbatim>\<open>set_difference\<close> of \<^verbatim>\<open>common/set.hpp\<close> keeps exactly the
  members of the left set whose reduced hash is not present in the right set.\<close>

definition set_difference :: "store \<Rightarrow> addr list \<Rightarrow> addr list \<Rightarrow> addr list" where
  "set_difference h left right = filter (\<lambda>a. find_batch h right a = None) left"

definition operator_minus :: "store \<Rightarrow> mst_state \<Rightarrow> mst_state \<Rightarrow> mst_state" where
  "operator_minus h self rhs =
     MstState h (completer self) (set_difference h (internal_state self) (internal_state rhs))"

text \<open>\<^verbatim>\<open>getBatches\<close> sorts the members by the hex of their reduced hash with \<^verbatim>\<open>std::sort\<close>
  and \<open><\<close> on strings. The keys of the members of a set are pairwise distinct, so the result
  is the one sorted sequence of the members.\<close>

definition getBatches :: "store \<Rightarrow> mst_state \<Rightarrow> addr list" where
  "getBatches h s = sort_key (\<lambda>a. reducedHash (h a)) (internal_state s)"

definition operator_eq :: "store \<Rightarrow> mst_state \<Rightarrow> mst_state \<Rightarrow> bool" where
  "operator_eq h lhs rhs \<longleftrightarrow>
     list_all2 (\<lambda>l r. batch_eq (h l) (h r)) (getBatches h lhs) (getBatches h rhs)"

definition isEmpty :: "mst_state \<Rightarrow> bool" where
  "isEmpty s \<longleftrightarrow> internal_state s = []"

function eraseByTime_loop :: "time \<Rightarrow> store \<Rightarrow> mst_state \<Rightarrow> mst_state \<Rightarrow> error + store \<times> mst_state \<times> mst_state" where
  "eraseByTime_loop t h self out =
     (case index_top (completer self) h (index self) of
        None \<Rightarrow> Inr (h, self, out)
      | Some tp \<Rightarrow>
          if \<not> is_expired (completer self) (h tp) t then Inr (h, self, out)
          else
            (case find_batch h (internal_state self) tp of
               None \<Rightarrow> Inl DerefEnd
             | Some iter \<Rightarrow>
                 (case operator_plus_batch h out iter of
                    Inl e \<Rightarrow> Inl e
                  | Inr (h', out', _, _) \<Rightarrow>
                      eraseByTime_loop t h'
                        (self\<lparr>internal_state := remove1 iter (internal_state self),
                              index := remove1 tp (index self)\<rparr>)
                        out')))"
  by pat_completeness auto
termination
proof (relation "measure (\<lambda>(t, h, self, out). length (index self))")
  show "wf (measure (\<lambda>(t, h, self, out). length (index self)))"
    by simp
next
  fix t :: time and h h' :: store and self out :: mst_state and tp iter :: addr
    and x :: "store \<times> mst_state \<times> mst_state \<times> bool"
    and out' :: mst_state and y :: "mst_state \<times> bool" and z :: bool and w :: bool
  assume top: "index_top (completer self) h (index self) = Some tp"
  have mem: "index_top c g xs = Some a \<Longrightarrow> a \<in> set xs" for c g xs a
    by (induction xs arbitrary: a) (auto split: option.splits if_splits)
  from mem [OF top] have "tp \<in> set (index self)" .
  moreover from this have "0 < length (index self)"
    by (cases "index self") auto
  ultimately have "length (remove1 tp (index self)) < length (index self)"
    by (simp add: length_remove1)
  then show "((t, h', self\<lparr>internal_state := remove1 iter (internal_state self),
                 index := remove1 tp (index self)\<rparr>, out'), t, h, self, out)
             \<in> measure (\<lambda>(t, h, self, out). length (index self))"
    by simp
qed

declare eraseByTime_loop.simps [simp del]

definition eraseByTime :: "store \<Rightarrow> mst_state \<Rightarrow> time \<Rightarrow> error + store \<times> mst_state \<times> mst_state" where
  "eraseByTime h self t = eraseByTime_loop t h self (empty_state (completer self))"

subsection \<open>Sequences of operations\<close>

text \<open>
  The operations that change a state, applied one after the other to a store and a state.
  The state an operation returns to its caller (the diff of an insertion or a merge, the
  expired batches) is dropped; the store keeps what the operation wrote to the batches.
\<close>

datatype operation = Insert addr | Merge mst_state | EraseByTime time

fun apply_operation :: "operation \<Rightarrow> store \<times> mst_state \<Rightarrow> error + store \<times> mst_state" where
  "apply_operation (Insert b) (h, s) =
     (case operator_plus_batch h s b of Inl e \<Rightarrow> Inl e | Inr (h', s', _, _) \<Rightarrow> Inr (h', s'))"
| "apply_operation (Merge rhs) (h, s) =
     (case operator_plus_state h s rhs of Inl e \<Rightarrow> Inl e | Inr (h', s', _) \<Rightarrow> Inr (h', s'))"
| "apply_operation (EraseByTime t) (h, s) =
     (case eraseByTime h s t of Inl e \<Rightarrow> Inl e | Inr (h', s', _) \<Rightarrow> Inr (h', s'))"

fun run :: "operation list \<Rightarrow> store \<times> mst_state \<Rightarrow> error + store \<times> mst_state" where
  "run [] w = Inr w"
| "run (x # xs) w = (case apply_operation x w of Inl e \<Rightarrow> Inl e | Inr w' \<Rightarrow> run xs w')"

section \<open>The transaction queue of the ordering service\<close>




section \<open>Predicates of the statements\<close>

text \<open>
  The members of a state are a set keyed by reduced hash: no two members have the same
  reduced hash. \<open>store_grows\<close> says that every batch keeps its reduced hash, its creation
  time and its transactions, and that every transaction keeps its quorum and a list of
  signatures that only gets longer at the end.
\<close>

definition hash_of :: "store \<Rightarrow> addr \<Rightarrow> hash_hex" where
  "hash_of h a = reducedHash (h a)"

definition unique_hashes :: "store \<Rightarrow> addr list \<Rightarrow> bool" where
  "unique_hashes h xs \<longleftrightarrow> distinct (map (hash_of h) xs)"

definition hashes :: "store \<Rightarrow> addr list \<Rightarrow> hash_hex set" where
  "hashes h xs = hash_of h ` set xs"

definition tx_grows :: "transaction \<Rightarrow> transaction \<Rightarrow> bool" where
  "tx_grows t t' \<longleftrightarrow>
     quorum t' = quorum t \<and> take (length (signatures t)) (signatures t') = signatures t
     \<and> (distinct (map publicKey (signatures t)) \<longrightarrow> distinct (map publicKey (signatures t')))"

definition batch_grows :: "batch \<Rightarrow> batch \<Rightarrow> bool" where
  "batch_grows b b' \<longleftrightarrow>
     reducedHash b' = reducedHash b \<and> created_at b' = created_at b
     \<and> list_all2 tx_grows (transactions b) (transactions b')"

definition store_grows :: "store \<Rightarrow> store \<Rightarrow> bool" where
  "store_grows h h' \<longleftrightarrow> (\<forall>a. batch_grows (h a) (h' a))"

definition public_keys :: "transaction \<Rightarrow> string set" where
  "public_keys t = set (map publicKey (signatures t))"

definition tx_merged :: "transaction \<Rightarrow> transaction \<Rightarrow> transaction \<Rightarrow> bool" where
  "tx_merged t d t' \<longleftrightarrow>
     tx_grows t t' \<and> public_keys t' = public_keys t \<union> public_keys d
     \<and> set (signatures t') \<subseteq> set (signatures t) \<union> set (signatures d)"

text \<open>
  What one call of \<^verbatim>\<open>insertOne\<close> does to the store and to the members of the state it is
  applied to, together with the batch it reports, if any. It is the body of \<^verbatim>\<open>insertOne\<close>
  without the state reported to.
\<close>

definition insert_members :: "Completer \<Rightarrow> store \<Rightarrow> addr list \<Rightarrow> addr \<Rightarrow> error + store \<times> addr list \<times> addr option" where
  "insert_members c h xs b =
     (case find_batch h xs b of
        None \<Rightarrow> Inr (h, xs @ [b], Some b)
      | Some f \<Rightarrow>
          (case mergeSignaturesInBatch h f b of
             Inl e \<Rightarrow> Inl e
           | Inr (h1, ins) \<Rightarrow>
               if is_complete c (h1 f) then Inr (h1, remove1 f xs, Some f)
               else Inr (h1, xs, if ins then Some f else None)))"

fun insert_members_each :: "Completer \<Rightarrow> store \<Rightarrow> addr list \<Rightarrow> addr list \<Rightarrow> error + store \<times> addr list \<times> addr list" where
  "insert_members_each c h xs [] = Inr (h, xs, [])"
| "insert_members_each c h xs (b # bs) =
     (case insert_members c h xs b of
        Inl e \<Rightarrow> Inl e
      | Inr (h1, xs1, r) \<Rightarrow>
          (case insert_members_each c h1 xs1 bs of
             Inl e \<Rightarrow> Inl e
           | Inr (h', xs', rs) \<Rightarrow> Inr (h', xs', (case r of None \<Rightarrow> [] | Some a \<Rightarrow> [a]) @ rs)))"

text \<open>
  The condition on the batches that arrive along a sequence of operations: a batch that is
  inserted while no member has its reduced hash is not complete at that moment. For a merge
  the condition is asked of each member of the other state when its turn comes.
\<close>

fun arrivals_each :: "store \<Rightarrow> mst_state \<Rightarrow> mst_state \<Rightarrow> addr list \<Rightarrow> bool" where
  "arrivals_each h self result [] = True"
| "arrivals_each h self result (b # bs) =
     ((find_batch h (internal_state self) b = None \<longrightarrow> \<not> is_complete (completer self) (h b))
      \<and> (case insertOne h self result b of
            Inl e \<Rightarrow> True
          | Inr (h', self', result', _) \<Rightarrow> arrivals_each h' self' result' bs))"

fun arrival_incomplete :: "operation \<Rightarrow> store \<times> mst_state \<Rightarrow> bool" where
  "arrival_incomplete (Insert b) (h, s) =
     (find_batch h (internal_state s) b = None \<longrightarrow> \<not> is_complete (completer s) (h b))"
| "arrival_incomplete (Merge rhs) (h, s) =
     arrivals_each h s (empty_state (completer s)) (internal_state rhs)"
| "arrival_incomplete (EraseByTime t) (h, s) = True"

fun arrivals_incomplete :: "operation list \<Rightarrow> store \<times> mst_state \<Rightarrow> bool" where
  "arrivals_incomplete [] w = True"
| "arrivals_incomplete (x # xs) w =
     (arrival_incomplete x w
      \<and> (case apply_operation x w of Inl e \<Rightarrow> True | Inr w' \<Rightarrow> arrivals_incomplete xs w'))"

definition members_incomplete :: "store \<Rightarrow> mst_state \<Rightarrow> bool" where
  "members_incomplete h s \<longleftrightarrow>
     unique_hashes h (internal_state s)
     \<and> (\<forall>a\<in>set (internal_state s). \<not> is_complete (completer s) (h a))"

section \<open>Merging in closed form and insertions of one reduced hash\<close>

text \<open>
  The result of a merge in closed form, for a donor whose signatures have pairwise distinct
  public keys: the target keeps its signatures and gets, in the donor's order, the donor's
  signatures whose public key the target does not have.
\<close>

definition merged_tx :: "transaction \<Rightarrow> transaction \<Rightarrow> transaction" where
  "merged_tx t d =
     t\<lparr>signatures := signatures t @ filter (\<lambda>s. publicKey s \<notin> public_keys t) (signatures d)\<rparr>"

definition merged_batch :: "batch \<Rightarrow> batch \<Rightarrow> batch" where
  "merged_batch b d =
     b\<lparr>transactions := map (\<lambda>(t, u). merged_tx t u) (zip (transactions b) (transactions d))\<rparr>"

text \<open>
  A transaction carries at most one signature per public key; \<open>distinct_keys\<close> says so of
  every transaction of a batch. Two transactions agree on their signatures when a public
  key that signed both has the same signature on both.
\<close>

definition distinct_keys :: "batch \<Rightarrow> bool" where
  "distinct_keys b \<longleftrightarrow> list_all (\<lambda>t. distinct (map publicKey (signatures t))) (transactions b)"

definition signatures_agree :: "transaction \<Rightarrow> transaction \<Rightarrow> bool" where
  "signatures_agree t u \<longleftrightarrow>
     (\<forall>s\<in>set (signatures t). \<forall>r\<in>set (signatures u). publicKey s = publicKey r \<longrightarrow> s = r)"

text \<open>
  Two batches are the same up to the order of their signatures: the same reduced hash and,
  position by position, the same quorum, the same set of signatures and as many of them.
  It implies the structural equality \<open>batch_eq\<close>.
\<close>

definition tx_sim :: "transaction \<Rightarrow> transaction \<Rightarrow> bool" where
  "tx_sim t u \<longleftrightarrow>
     quorum t = quorum u \<and> set (signatures t) = set (signatures u)
     \<and> length (signatures t) = length (signatures u)"

definition batch_sim :: "batch \<Rightarrow> batch \<Rightarrow> bool" where
  "batch_sim b c \<longleftrightarrow>
     reducedHash b = reducedHash c \<and> list_all2 tx_sim (transactions b) (transactions c)"

text \<open>
  The insertion of \<open>b\<close> alone completes a member: a member has the reduced hash of \<open>b\<close> and
  is complete once the signatures of \<open>b\<close> are merged into it.
\<close>

definition completes_alone :: "Completer \<Rightarrow> store \<Rightarrow> addr list \<Rightarrow> addr \<Rightarrow> bool" where
  "completes_alone c h xs b =
     (case find_batch h xs b of
        None \<Rightarrow> False
      | Some m \<Rightarrow>
          (case mergeSignaturesInBatch h m b of
             Inl e \<Rightarrow> False
           | Inr (g, i) \<Rightarrow> is_complete c (g m)))"

text \<open>
  The members \<open>xs\<close> under the store \<open>h\<close> and the members \<open>ys\<close> under the store \<open>h'\<close> are,
  position by position, batches of the same reduced hash that are structurally equal.
\<close>

definition same_batches :: "store \<Rightarrow> addr list \<Rightarrow> store \<Rightarrow> addr list \<Rightarrow> bool" where
  "same_batches h xs h' ys \<longleftrightarrow>
     list_all2 (\<lambda>a a'. reducedHash (h a) = reducedHash (h' a') \<and> batch_eq (h a) (h' a')) xs ys"

section \<open>Scenario data\<close>

text \<open>Modelled from the spec: the completer of the scenarios. A batch is complete when every
  transaction has collected its quorum of signatures, and expired at \<open>now\<close> when
  \<open>now - created_at \<ge> TTL\<close>; the expiry key is the creation time.\<close>

definition ttl_completer :: "nat \<Rightarrow> Completer" where
  "ttl_completer ttl =
     \<lparr>is_complete = (\<lambda>b. list_all (\<lambda>tx. quorum tx \<le> length (signatures tx)) (transactions b)),
      is_expired = (\<lambda>b now. int ttl \<le> int now - int (created_at b)),
      expiry_key = created_at\<rparr>"

definition sig_of :: "string \<Rightarrow> signature" where
  "sig_of pk = \<lparr>publicKey = pk, signedData = ''signed by '' @ pk\<rparr>"

definition mk_batch :: "hash_hex \<Rightarrow> time \<Rightarrow> nat \<Rightarrow> string list \<Rightarrow> batch" where
  "mk_batch hx t q pks =
     \<lparr>reducedHash = hx, created_at = t,
      transactions = [\<lparr>quorum = q, signatures = map sig_of pks\<rparr>]\<rparr>"

definition store_of :: "batch list \<Rightarrow> store" where
  "store_of bs = (\<lambda>a. if a < length bs then bs ! a else mk_batch [] 0 0 [])"

definition S1_store :: store where
  "S1_store = store_of [mk_batch ''b1'' 0 2 [''pk1''], mk_batch ''b1'' 0 2 [''pk2'']]"

definition S1_state :: mst_state where
  "S1_state = \<lparr>completer = ttl_completer 10, internal_state = [0], index = [0]\<rparr>"

definition S1_merged :: store where
  "S1_merged = S1_store(0 := mk_batch ''b1'' 0 2 [''pk1'', ''pk2''])"

definition S2_store :: store where
  "S2_store = store_of [mk_batch ''b1'' 0 2 [''pk1''], mk_batch ''b1'' 0 2 [''pk1'']]"

definition arrival_store :: store where
  "arrival_store = store_of [mk_batch ''b1'' 0 1 [''pk1'']]"

definition evict_store :: store where
  "evict_store =
     store_of [mk_batch ''b1'' 0 2 [''pk1''], mk_batch ''b2'' 0 2 [''pk1''],
               mk_batch ''b1'' 0 2 [''pk2'']]"

definition evict_state :: mst_state where
  "evict_state = \<lparr>completer = ttl_completer 10, internal_state = [0, 1], index = [0, 1]\<rparr>"

definition evict_merged :: store where
  "evict_merged = evict_store(0 := mk_batch ''b1'' 0 2 [''pk1'', ''pk2''])"

definition eq_store :: store where
  "eq_store = store_of [mk_batch ''b2'' 0 2 [''pk1''], mk_batch ''a1'' 5 2 [''pk2'']]"

definition eq_A :: mst_state where
  "eq_A = \<lparr>completer = ttl_completer 10, internal_state = [0, 1], index = [0, 1]\<rparr>"

definition eq_A' :: mst_state where
  "eq_A' = \<lparr>completer = ttl_completer 5, internal_state = [1, 0], index = []\<rparr>"

definition S4_store :: store where
  "S4_store =
     store_of [mk_batch ''b1'' 0 2 [''pk1''], mk_batch ''b2'' 0 2 [''pk1''],
               mk_batch ''b3'' 0 2 [''pk1''], mk_batch ''b2'' 0 2 [''pk2'']]"

definition S4_A :: mst_state where
  "S4_A = \<lparr>completer = ttl_completer 10, internal_state = [2, 1, 0], index = [2, 1, 0]\<rparr>"

definition S4_B :: mst_state where
  "S4_B = \<lparr>completer = ttl_completer 10, internal_state = [3], index = [3]\<rparr>"


definition S3_store :: store where
  "S3_store = store_of [mk_batch ''b1'' 0 2 [''pk1''], mk_batch ''b2'' 5 2 [''pk1'']]"

definition S3_state :: mst_state where
  "S3_state = \<lparr>completer = ttl_completer 10, internal_state = [0, 1], index = [0, 1]\<rparr>"

definition S3_retained :: mst_state where
  "S3_retained = \<lparr>completer = ttl_completer 10, internal_state = [1], index = [1]\<rparr>"

definition same_hash_store :: store where
  "same_hash_store =
     store_of [mk_batch ''b1'' 0 2 [''pk1''], mk_batch ''b1'' 0 2 [''pk2''],
               mk_batch ''b1'' 0 2 [''pk1'']]"

definition same_hash_merged :: store where
  "same_hash_merged = same_hash_store(0 := mk_batch ''b1'' 0 2 [''pk1'', ''pk2''])"

definition two_hash_store :: store where
  "two_hash_store =
     store_of [mk_batch ''b1'' 0 2 [''pk1''], mk_batch ''b1'' 0 2 [''pk2''],
               mk_batch ''b2'' 0 2 [''pk1'']]"

definition two_hash_merged :: store where
  "two_hash_merged = two_hash_store(0 := mk_batch ''b1'' 0 2 [''pk1'', ''pk2''])"

definition order_store :: store where
  "order_store =
     store_of [mk_batch ''b1'' 0 4 [''pk1''], mk_batch ''b1'' 0 4 [''pk2''],
               mk_batch ''b1'' 0 4 [''pk3''], mk_batch ''b2'' 0 4 [''pk1'']]"

definition conflict_store :: store where
  "conflict_store =
     store_of [mk_batch ''b1'' 0 4 [''pk1''], mk_batch ''b1'' 0 4 [''pk2''],
               \<lparr>reducedHash = ''b1'', created_at = 0,
                transactions = [\<lparr>quorum = 4,
                  signatures = [\<lparr>publicKey = ''pk2'', signedData = ''signed otherwise''\<rparr>]\<rparr>]\<rparr>]"

section \<open>Basic facts\<close>

lemma find_batch_Some: "find_batch h xs b = Some a \<Longrightarrow> a \<in> set xs \<and> hash_of h a = hash_of h b"
  by (induction xs) (auto simp: hash_of_def split: if_splits)

lemma find_batch_None: "find_batch h xs b = None \<longleftrightarrow> hash_of h b \<notin> hash_of h ` set xs"
  by (induction xs) (auto simp: hash_of_def)

lemma find_batch_hash_cong:
  "(\<And>a. hash_of h' a = hash_of h a) \<Longrightarrow> find_batch h' xs b = find_batch h xs b"
  by (induction xs) (auto simp: hash_of_def)

lemma find_batch_member:
  "unique_hashes h xs \<Longrightarrow> a \<in> set xs \<Longrightarrow> hash_of h b = hash_of h a \<Longrightarrow> find_batch h xs b = Some a"
  by (induction xs) (auto simp: unique_hashes_def hash_of_def)

lemma tx_grows_refl: "tx_grows t t"
  by (simp add: tx_grows_def)

lemma take_prefix_trans:
  assumes "take (length xs) ys = xs" and "take (length ys) zs = ys"
  shows "take (length xs) zs = xs"
proof -
  from assms(1) have "length (take (length xs) ys) = length xs"
    by simp
  then have "length xs \<le> length ys"
    by simp
  then have "take (length xs) zs = take (length xs) (take (length ys) zs)"
    by (simp add: min_def)
  with assms show ?thesis by simp
qed

lemma tx_grows_trans: "tx_grows t u \<Longrightarrow> tx_grows u v \<Longrightarrow> tx_grows t v"
  unfolding tx_grows_def by (auto intro: take_prefix_trans)

lemma addSignature_grows: "addSignature tx sd pk = (tx', r) \<Longrightarrow> tx_grows tx tx'"
  by (auto simp: addSignature_def tx_grows_def split: if_splits)

lemma accumulate_signatures_grows:
  "accumulate_signatures ss tx acc = (tx', r) \<Longrightarrow> tx_grows tx tx'"
proof (induction ss arbitrary: tx acc)
  case Nil
  then show ?case by (simp add: tx_grows_refl)
next
  case (Cons s ss)
  then show ?case
    by (auto split: prod.splits dest: addSignature_grows intro: tx_grows_trans)
qed

lemma merge_combined_grows:
  "merge_combined ts ds ins = Inr (ts', r) \<Longrightarrow> list_all2 tx_grows ts ts'"
proof (induction ts ds ins arbitrary: ts' r rule: merge_combined.induct)
  case (2 t ts d ds ins)
  then show ?case
    by (auto split: prod.splits sum.splits dest: accumulate_signatures_grows)
qed auto

lemma batch_grows_refl: "batch_grows b b"
  by (simp add: batch_grows_def list_all2_refl tx_grows_refl)

lemma batch_grows_trans: "batch_grows a b \<Longrightarrow> batch_grows b c \<Longrightarrow> batch_grows a c"
  unfolding batch_grows_def
  by (auto elim: list_all2_trans [rotated] intro: tx_grows_trans)

lemma store_grows_refl: "store_grows h h"
  by (simp add: store_grows_def batch_grows_refl)

lemma store_grows_trans: "store_grows h h1 \<Longrightarrow> store_grows h1 h2 \<Longrightarrow> store_grows h h2"
  unfolding store_grows_def by (blast intro: batch_grows_trans)

lemma mergeSignaturesInBatch_grows:
  "mergeSignaturesInBatch h target donor = Inr (h', r) \<Longrightarrow> store_grows h h'"
  by (auto simp: mergeSignaturesInBatch_def store_grows_def batch_grows_def list_all2_refl
      tx_grows_refl split: sum.splits dest: merge_combined_grows)

lemma store_grows_hash: "store_grows h h' \<Longrightarrow> hash_of h' a = hash_of h a"
  by (simp add: store_grows_def batch_grows_def hash_of_def)

lemma insertOne_grows:
  "insertOne h self out b = Inr (h', self', out', c) \<Longrightarrow> store_grows h h'"
proof (induction h self out b arbitrary: h' self' out' c rule: insertOne.induct)
  case (1 h self out rhs_batch)
  show ?case
  proof (cases "find_batch h (internal_state self) rhs_batch")
    case None
    with "1.prems" show ?thesis
      by (simp add: insertOne.simps store_grows_refl)
  next
    case (Some found)
    show ?thesis
    proof (cases "mergeSignaturesInBatch h found rhs_batch")
      case (Inl e)
      with Some "1.prems" show ?thesis by (simp add: insertOne.simps)
    next
      case (Inr p)
      obtain h1 ins where p: "p = (h1, ins)" by (cases p)
      have g1: "store_grows h h1"
        using Inr p by (auto dest: mergeSignaturesInBatch_grows)
      show ?thesis
      proof (cases "is_complete (completer self) (h1 found)")
        case True
        with "1.prems" Some Inr p obtain h2 o2 s2 c2 where
          rec: "insertOne h1 out (empty_state (completer out)) found = Inr (h2, o2, s2, c2)"
          and h': "h' = h2"
          by (auto simp: insertOne.simps [of h self] split: sum.splits option.splits)
        from "1.IH" [OF Some Inr p [symmetric] True rec] have "store_grows h1 h2" .
        with g1 h' show ?thesis by (blast intro: store_grows_trans)
      next
        case False
        with "1.prems" Some Inr p g1 show ?thesis
          by (auto simp: insertOne.simps [of h self] split: if_splits)
      qed
    qed
  qed
qed

lemma insertOne_empty_self:
  "internal_state self = [] \<Longrightarrow>
   insertOne h self out b = Inr (h, rawInsert h self b, rawInsert h out b, False)"
  by (simp add: insertOne.simps)

lemma rawInsert_empty:
  "rawInsert h (empty_state c) b = \<lparr>completer = c, internal_state = [b], index = [b]\<rparr>"
  by (simp add: rawInsert_def empty_state_def set_insert_def)

lemma find_batch_found_again:
  "find_batch h xs b = Some f \<Longrightarrow> (\<And>a. hash_of h' a = hash_of h a) \<Longrightarrow>
   find_batch h' xs f = Some f"
proof (induction xs)
  case Nil
  then show ?case by simp
next
  case (Cons a xs)
  then show ?case
    by (auto simp: hash_of_def split: if_splits dest!: find_batch_Some)
qed

lemma operator_plus_batch_unfold:
  "operator_plus_batch h s b =
     (case find_batch h (internal_state s) b of
        None \<Rightarrow> Inr (h, rawInsert h s b, rawInsert h (empty_state (completer s)) b, False)
      | Some f \<Rightarrow>
          (case mergeSignaturesInBatch h f b of
             Inl e \<Rightarrow> Inl e
           | Inr (h1, ins) \<Rightarrow>
               if is_complete (completer s) (h1 f) then
                 Inr (h1, s\<lparr>internal_state := remove1 f (internal_state s)\<rparr>,
                      rawInsert h1 (empty_state (completer s)) f, True)
               else if ins then Inr (h1, s, rawInsert h1 (empty_state (completer s)) f, False)
               else Inr (h1, s, empty_state (completer s), False)))"
proof (cases "find_batch h (internal_state s) b")
  case None
  then show ?thesis
    by (simp add: operator_plus_batch_def insertOne.simps)
next
  case (Some f)
  show ?thesis
  proof (cases "mergeSignaturesInBatch h f b")
    case (Inl e)
    with Some show ?thesis
      by (simp add: operator_plus_batch_def insertOne.simps)
  next
    case (Inr p)
    obtain h1 ins where p: "p = (h1, ins)" by (cases p)
    have "hash_of h1 a = hash_of h a" for a
      using Inr p by (auto dest!: mergeSignaturesInBatch_grows store_grows_hash)
    with Some have again: "find_batch h1 (internal_state s) f = Some f"
      by (rule find_batch_found_again)
    have inner: "insertOne h1 (empty_state (completer s)) (empty_state (completer (empty_state (completer s)))) f
      = Inr (h1, rawInsert h1 (empty_state (completer s)) f, rawInsert h1 (empty_state (completer s)) f, False)"
      by (subst insertOne_empty_self) (simp_all add: empty_state_def)
    show ?thesis
      using Some Inr p again inner
      by (simp add: operator_plus_batch_def insertOne.simps [of h s])
  qed
qed

lemma tx_grows_subset: "tx_grows t t' \<Longrightarrow> set (signatures t) \<subseteq> set (signatures t')"
proof -
  assume "tx_grows t t'"
  then have "signatures t = take (length (signatures t)) (signatures t')"
    by (simp add: tx_grows_def)
  then have "set (signatures t) = set (take (length (signatures t)) (signatures t'))"
    by simp
  then show ?thesis
    using set_take_subset [of "length (signatures t)" "signatures t'"] by simp
qed

lemma accumulate_signatures_merged:
  "accumulate_signatures ss tx acc = (tx', r) \<Longrightarrow>
   public_keys tx' = public_keys tx \<union> set (map publicKey ss)
   \<and> set (signatures tx') \<subseteq> set (signatures tx) \<union> set ss"
proof (induction ss arbitrary: tx acc)
  case Nil
  then show ?case by simp
next
  case (Cons s ss)
  obtain tx1 r1 where a: "addSignature tx (signedData s) (publicKey s) = (tx1, r1)"
    by (cases "addSignature tx (signedData s) (publicKey s)")
  with Cons.prems have rest: "accumulate_signatures ss tx1 (r1 \<or> acc) = (tx', r)"
    by simp
  have "public_keys tx1 = insert (publicKey s) (public_keys tx)"
    and "set (signatures tx1) \<subseteq> insert s (set (signatures tx))"
    using a by (auto simp: addSignature_def public_keys_def split: if_splits)
  with Cons.IH [OF rest] show ?case by auto
qed

lemma merge_combined_merged:
  "merge_combined ts ds ins = Inr (ts', r) \<Longrightarrow>
   length ds = length ts \<and> length ts' = length ts
   \<and> (\<forall>i<length ts. tx_merged (ts ! i) (ds ! i) (ts' ! i))"
proof (induction ts ds ins arbitrary: ts' r rule: merge_combined.induct)
  case (1 ins)
  then show ?case by simp
next
  case (2 t ts d ds ins)
  obtain t1 i1 where a: "accumulate_signatures (signatures d) t ins = (t1, i1)"
    by (cases "accumulate_signatures (signatures d) t ins")
  with "2.prems" obtain ts1 where m: "merge_combined ts ds i1 = Inr (ts1, r)"
    and ts': "ts' = t1 # ts1"
    by (auto split: sum.splits)
  from "2.IH" [OF a [symmetric] m]
  have ih: "length ds = length ts" "length ts1 = length ts"
    "\<forall>i<length ts. tx_merged (ts ! i) (ds ! i) (ts1 ! i)"
    by simp_all
  have hd: "tx_merged t d t1"
    using accumulate_signatures_merged [OF a] accumulate_signatures_grows [OF a]
    by (simp add: tx_merged_def public_keys_def)
  show ?case
    using ih hd ts' by (auto simp: nth_Cons split: nat.splits)
qed auto

lemma mergeSignaturesInBatch_frame:
  "mergeSignaturesInBatch h f b = Inr (h1, ins) \<Longrightarrow> a \<noteq> f \<Longrightarrow> h1 a = h a"
  by (auto simp: mergeSignaturesInBatch_def split: sum.splits)

lemma mergeSignaturesInBatch_merged:
  assumes "mergeSignaturesInBatch h f b = Inr (h1, ins)"
  shows "length (transactions (h b)) = length (transactions (h f))"
    and "length (transactions (h1 f)) = length (transactions (h f))"
    and "i < length (transactions (h f)) \<Longrightarrow>
         tx_merged (transactions (h f) ! i) (transactions (h b) ! i) (transactions (h1 f) ! i)"
  using assms
  by (auto simp: mergeSignaturesInBatch_def split: sum.splits dest!: merge_combined_merged)

lemma getBatches_set [simp]: "set (getBatches h s) = set (internal_state s)"
  by (simp add: getBatches_def)

lemma unique_hashes_remove1_absent:
  "unique_hashes h xs \<Longrightarrow> f \<in> set xs \<Longrightarrow> hash_of h f \<notin> hash_of h ` set (remove1 f xs)"
  by (auto simp: unique_hashes_def distinct_map dest: inj_onD)

lemma unique_hashes_cong:
  "(\<And>a. hash_of h' a = hash_of h a) \<Longrightarrow> unique_hashes h' xs = unique_hashes h xs"
  by (simp add: unique_hashes_def cong: map_cong)

lemmas scenario_defs = store_of_def mk_batch_def sig_of_def ttl_completer_def empty_state_def
  rawInsert_def set_insert_def mergeSignaturesInBatch_def addSignature_def unique_hashes_def
  hash_of_def getBatches_def

section \<open>Insertion under a reduced hash already present\<close>



lemma accumulate_signatures_dup:
  "set (map publicKey ss) \<subseteq> public_keys tx \<Longrightarrow> accumulate_signatures ss tx acc = (tx, acc)"
  by (induction ss arbitrary: acc) (auto simp: addSignature_def public_keys_def)

lemma merge_combined_dup:
  "length ds = length ts \<Longrightarrow> \<forall>i<length ts. public_keys (ds ! i) \<subseteq> public_keys (ts ! i) \<Longrightarrow>
   merge_combined ts ds ins = Inr (ts, ins)"
proof (induction ds ts arbitrary: ins rule: list_induct2)
  case Nil
  then show ?case by simp
next
  case (Cons d ds t ts)
  from Cons.prems have "public_keys ((d # ds) ! 0) \<subseteq> public_keys ((t # ts) ! 0)"
    by blast
  then have hd: "set (map publicKey (signatures d)) \<subseteq> public_keys t"
    by (simp add: public_keys_def)
  have "\<forall>i<length ts. public_keys (ds ! i) \<subseteq> public_keys (ts ! i)"
  proof (intro allI impI)
    fix i assume "i < length ts"
    then have "Suc i < length (t # ts)" by simp
    with Cons.prems have "public_keys ((d # ds) ! Suc i) \<subseteq> public_keys ((t # ts) ! Suc i)"
      by blast
    then show "public_keys (ds ! i) \<subseteq> public_keys (ts ! i)" by simp
  qed
  from Cons.IH [OF this] accumulate_signatures_dup [OF hd] show ?case
    by simp
qed

lemma mergeSignaturesInBatch_dup:
  assumes "length (transactions (h b)) = length (transactions (h f))"
    and "\<forall>i<length (transactions (h f)).
           public_keys (transactions (h b) ! i) \<subseteq> public_keys (transactions (h f) ! i)"
  shows "mergeSignaturesInBatch h f b = Inr (h, False)"
  using merge_combined_dup [OF assms, of False]
  by (simp add: mergeSignaturesInBatch_def)

section \<open>Insertion that adds no signature\<close>

text \<open>
  Claim C7. When a batch is inserted whose reduced hash is that of a member \<open>f\<close>, every
  public key signing a transaction of the incoming batch already signs the transaction of
  \<open>f\<close> at the same position, and \<open>f\<close> is not complete, the insertion returns an empty
  diff state and the status false, and leaves the store, hence the signatures of the member,
  and the state as they were. The witness is scenario S2: \<open>b\<close> signed by \<open>pk1\<close> is inserted
  twice, the second call returns the empty diff, and the member is still signed by \<open>pk1\<close>
  alone.
\<close>

theorem insert_duplicate_signatures:
  assumes found: "find_batch h (internal_state s) b = Some f"
    and len: "length (transactions (h b)) = length (transactions (h f))"
    and dup: "\<forall>i<length (transactions (h f)).
                public_keys (transactions (h b) ! i) \<subseteq> public_keys (transactions (h f) ! i)"
    and incomplete: "\<not> is_complete (completer s) (h f)"
  shows "operator_plus_batch h s b = Inr (h, s, empty_state (completer s), False)
         \<and> isEmpty (empty_state (completer s))"
  using found incomplete mergeSignaturesInBatch_dup [OF len dup]
  by (simp add: operator_plus_batch_unfold isEmpty_def empty_state_def)

lemma S1_first_insert:
  "operator_plus_batch S1_store (empty_state (ttl_completer 10)) 0 =
     Inr (S1_store, S1_state, S1_state, False)"
  by (simp add: operator_plus_batch_unfold S1_store_def S1_state_def scenario_defs)

theorem insert_duplicate_signatures_witness:
  "operator_plus_batch S2_store (empty_state (ttl_completer 10)) 0 =
     Inr (S2_store, S1_state, S1_state, False)
   \<and> find_batch S2_store (internal_state S1_state) 1 = Some 0
   \<and> length (transactions (S2_store 1)) = length (transactions (S2_store 0))
   \<and> length (transactions (S2_store 0)) = 1
   \<and> public_keys (transactions (S2_store 1) ! 0) = public_keys (transactions (S2_store 0) ! 0)
   \<and> \<not> is_complete (completer S1_state) (S2_store 0)
   \<and> operator_plus_batch S2_store S1_state 1 =
         Inr (S2_store, S1_state, empty_state (completer S1_state), False)
   \<and> isEmpty (empty_state (completer S1_state))
   \<and> map publicKey (signatures (transactions (S2_store 0) ! 0)) = [''pk1'']"
proof -
  have 0: "operator_plus_batch S2_store (empty_state (ttl_completer 10)) 0 =
     Inr (S2_store, S1_state, S1_state, False)"
    by (simp add: operator_plus_batch_unfold S2_store_def S1_state_def scenario_defs)
  have 1: "find_batch S2_store (internal_state S1_state) 1 = Some 0"
    by (simp add: S2_store_def S1_state_def scenario_defs)
  have 2: "length (transactions (S2_store 1)) = length (transactions (S2_store 0))"
    and l: "length (transactions (S2_store 0)) = 1"
    by (simp_all add: S2_store_def scenario_defs)
  have k: "public_keys (transactions (S2_store 1) ! 0) = public_keys (transactions (S2_store 0) ! 0)"
    by (simp add: S2_store_def public_keys_def scenario_defs)
  have 3: "\<forall>i<length (transactions (S2_store 0)).
         public_keys (transactions (S2_store 1) ! i) \<subseteq> public_keys (transactions (S2_store 0) ! i)"
    using k l by simp
  have 4: "\<not> is_complete (completer S1_state) (S2_store 0)"
    by (simp add: S2_store_def S1_state_def scenario_defs)
  have 5: "map publicKey (signatures (transactions (S2_store 0) ! 0)) = [''pk1'']"
    by (simp add: S2_store_def scenario_defs)
  from insert_duplicate_signatures [OF 1 2 3 4] 0 1 2 l k 4 5 show ?thesis
    by (intro conjI) blast+
qed

section \<open>Expiry after a completion\<close>

text \<open>
  Claim C2. The claim is that \<open>eraseByTime\<close> completes in every state the public operations
  reach, because the top of the expiry index is always still a member. \<^verbatim>\<open>insertOne\<close> erases a
  completed batch from \<^verbatim>\<open>internal_state_\<close> and leaves it in \<^verbatim>\<open>index_\<close>. After scenario S1 the
  state has no member and the index still holds the completed batch; at a time when that
  batch is expired, \<open>eraseByTime\<close> looks it up among the members, gets \<^verbatim>\<open>end()\<close>, and
  dereferences it.
\<close>

theorem eraseByTime_after_completion:
  "operator_plus_batch S1_store (empty_state (ttl_completer 10)) 0 =
     Inr (S1_store, S1_state, S1_state, False)
   \<and> operator_plus_batch S1_store S1_state 1 =
       Inr (S1_merged, S1_state\<lparr>internal_state := []\<rparr>, S1_state, True)
   \<and> eraseByTime S1_merged (S1_state\<lparr>internal_state := []\<rparr>) 10 = Inl DerefEnd"
proof -
  have 1: "operator_plus_batch S1_store S1_state 1 =
       Inr (S1_merged, S1_state\<lparr>internal_state := []\<rparr>, S1_state, True)"
    by (simp add: operator_plus_batch_unfold S1_store_def S1_state_def S1_merged_def scenario_defs)
  have 2: "eraseByTime S1_merged (S1_state\<lparr>internal_state := []\<rparr>) 10 = Inl DerefEnd"
    by (simp add: eraseByTime_def eraseByTime_loop.simps S1_state_def S1_merged_def scenario_defs)
  from S1_first_insert 1 2 show ?thesis by (intro conjI)
qed

lemma operator_plus_batch_grows:
  "operator_plus_batch h s b = Inr (h', s', d, c) \<Longrightarrow> store_grows h h'"
  unfolding operator_plus_batch_def by (rule insertOne_grows)

lemma mergeSignaturesInBatch_hash_frame:
  "mergeSignaturesInBatch h f b = Inr (h1, ins) \<Longrightarrow> hash_of h a \<noteq> hash_of h f \<Longrightarrow> h1 a = h a"
  by (auto dest: mergeSignaturesInBatch_frame)

lemma operator_plus_batch_hash_frame:
  assumes "operator_plus_batch h s b = Inr (h', s', d, c)"
    and "hash_of h a \<noteq> hash_of h b"
  shows "h' a = h a"
proof (cases "find_batch h (internal_state s) b")
  case None
  with assms show ?thesis by (simp add: operator_plus_batch_unfold)
next
  case (Some f)
  then have "hash_of h f = hash_of h b" by (simp add: find_batch_Some)
  with assms(2) have "a \<noteq> f" by auto
  with assms(1) Some show ?thesis
    by (auto simp: operator_plus_batch_unfold split: sum.splits if_splits
        dest: mergeSignaturesInBatch_frame)
qed

lemma insertOne_unfold:
  "insertOne h self out b =
     (case find_batch h (internal_state self) b of
        None \<Rightarrow> Inr (h, rawInsert h self b, rawInsert h out b, False)
      | Some f \<Rightarrow>
          (case mergeSignaturesInBatch h f b of
             Inl e \<Rightarrow> Inl e
           | Inr (h1, ins) \<Rightarrow>
               if is_complete (completer self) (h1 f) then
                 (case operator_plus_batch h1 out f of
                    Inl e \<Rightarrow> Inl e
                  | Inr (h2, out', _, _) \<Rightarrow>
                      Inr (h2, self\<lparr>internal_state := remove1 f (internal_state self)\<rparr>, out', True))
               else if ins then Inr (h1, self, rawInsert h1 out f, False)
               else Inr (h1, self, out, False)))"
proof (cases "find_batch h (internal_state self) b")
  case None
  then show ?thesis by (simp add: insertOne.simps)
next
  case (Some f)
  show ?thesis
  proof (cases "mergeSignaturesInBatch h f b")
    case (Inl e)
    with Some show ?thesis by (simp add: insertOne.simps)
  next
    case (Inr p)
    obtain h1 ins where p: "p = (h1, ins)" by (cases p)
    have hash1: "hash_of h1 a = hash_of h a" for a
      using Inr p by (auto dest!: mergeSignaturesInBatch_grows store_grows_hash)
    show ?thesis
    proof (cases "operator_plus_batch h1 out f")
      case (Inl e)
      with Some Inr p show ?thesis
        by (simp add: insertOne.simps [of h self] operator_plus_batch_def)
    next
      case inner: (Inr q)
      obtain h2 out' d c where q: "q = (h2, out', d, c)" by (cases q)
      have "hash_of h2 a = hash_of h a" for a
        using inner q hash1 by (auto dest!: operator_plus_batch_grows store_grows_hash)
      with Some have "find_batch h2 (internal_state self) f = Some f"
        by (rule find_batch_found_again)
      with Some Inr p inner q show ?thesis
        by (simp add: insertOne.simps [of h self] operator_plus_batch_def)
    qed
  qed
qed

lemma insertOne_hash_frame:
  assumes "insertOne h self out b = Inr (h', self', out', c)"
    and "hash_of h a \<noteq> hash_of h b"
  shows "h' a = h a"
proof (cases "find_batch h (internal_state self) b")
  case None
  with assms show ?thesis by (simp add: insertOne_unfold)
next
  case (Some f)
  then have fb: "hash_of h f = hash_of h b" by (simp add: find_batch_Some)
  from assms(1) Some obtain h1 ins where m: "mergeSignaturesInBatch h f b = Inr (h1, ins)"
    by (auto simp: insertOne_unfold split: sum.splits)
  have h1: "h1 a = h a"
    using m assms(2) fb by (auto dest: mergeSignaturesInBatch_frame)
  have hash1: "hash_of h1 x = hash_of h x" for x
    using m by (auto dest!: mergeSignaturesInBatch_grows store_grows_hash)
  show ?thesis
  proof (cases "is_complete (completer self) (h1 f)")
    case True
    with assms(1) Some m obtain o2 d2 c2 where
      "operator_plus_batch h1 out f = Inr (h', o2, d2, c2)"
      by (auto simp: insertOne_unfold split: sum.splits)
    from operator_plus_batch_hash_frame [OF this, of a] assms(2) fb hash1 h1
    show ?thesis by simp
  next
    case False
    with assms(1) Some m h1 show ?thesis
      by (auto simp: insertOne_unfold split: if_splits)
  qed
qed

lemma set_insert_fresh: "find_batch h xs b = None \<Longrightarrow> set_insert h xs b = xs @ [b]"
  by (simp add: set_insert_def)

lemma insertOne_incomplete_step:
  assumes res: "insertOne h self out b = Inr (h', self', out', c)"
    and uniq: "unique_hashes h (internal_state self)"
    and inv: "\<forall>a\<in>set (internal_state self). \<not> is_complete (completer self) (h a)"
    and arrival: "find_batch h (internal_state self) b = None \<longrightarrow>
                    \<not> is_complete (completer self) (h b)"
  shows "(\<forall>a\<in>set (internal_state self'). \<not> is_complete (completer self') (h' a))
         \<and> (c \<longrightarrow> (\<forall>a\<in>set (getBatches h' self'). reducedHash (h' a) \<noteq> reducedHash (h' b)))"
proof (cases "find_batch h (internal_state self) b")
  case None
  with res have "h' = h" "self' = rawInsert h self b" "\<not> c"
    by (auto simp: insertOne_unfold)
  with None inv arrival show ?thesis
    by (auto simp: rawInsert_def set_insert_fresh)
next
  case (Some f)
  then have f: "f \<in> set (internal_state self)" and fb: "hash_of h f = hash_of h b"
    by (simp_all add: find_batch_Some)
  from res Some obtain h1 ins where m: "mergeSignaturesInBatch h f b = Inr (h1, ins)"
    by (auto simp: insertOne_unfold split: sum.splits)
  have other: "h' a = h a" if "a \<in> set (internal_state self)" "a \<noteq> f" for a
  proof -
    from uniq that f have "hash_of h a \<noteq> hash_of h f"
      by (auto simp: unique_hashes_def distinct_map dest: inj_onD)
    with fb insertOne_hash_frame [OF res, of a] show ?thesis by simp
  qed
  have hash': "hash_of h' a = hash_of h a" for a
    using res by (auto dest!: insertOne_grows store_grows_hash)
  have dist: "distinct (internal_state self)"
    using uniq by (simp add: unique_hashes_def distinct_map)
  show ?thesis
  proof (cases "is_complete (completer self) (h1 f)")
    case True
    with res Some m have self': "self' = self\<lparr>internal_state := remove1 f (internal_state self)\<rparr>"
      by (auto simp: insertOne_unfold split: sum.splits)
    have "\<not> is_complete (completer self') (h' a)" if "a \<in> set (internal_state self')" for a
      using that self' dist other [of a] inv by auto
    moreover have "reducedHash (h' a) \<noteq> reducedHash (h' b)" if "a \<in> set (getBatches h' self')" for a
    proof -
      from that self' have "a \<in> set (remove1 f (internal_state self))" by simp
      with unique_hashes_remove1_absent [OF uniq f] have "hash_of h a \<noteq> hash_of h f"
        by (auto simp: image_iff)
      with fb hash' show ?thesis by (simp add: hash_of_def)
    qed
    ultimately show ?thesis by blast
  next
    case False
    with res Some m have self': "self' = self" and h': "h' = h1" and c: "\<not> c"
      by (auto simp: insertOne_unfold split: if_splits)
    have "\<not> is_complete (completer self') (h' a)" if "a \<in> set (internal_state self')" for a
      using that self' other [of a] inv False h' by (cases "a = f") auto
    with c show ?thesis by blast
  qed
qed

lemma insert_each_grows:
  "insert_each h self result bs = Inr (h', self', result') \<Longrightarrow> store_grows h h'"
proof (induction bs arbitrary: h self result)
  case Nil
  then show ?case by (simp add: store_grows_refl)
next
  case (Cons b bs)
  from Cons.prems obtain h1 s1 r1 c1 where
    1: "insertOne h self result b = Inr (h1, s1, r1, c1)"
    and 2: "insert_each h1 s1 r1 bs = Inr (h', self', result')"
    by (auto split: sum.splits)
  from insertOne_grows [OF 1] Cons.IH [OF 2] show ?case
    by (rule store_grows_trans)
qed

lemma eraseByTime_loop_grows:
  "eraseByTime_loop t h self out = Inr (h', self', out') \<Longrightarrow> store_grows h h'"
proof (induction t h self out rule: eraseByTime_loop.induct)
  case (1 t h self out)
  show ?case
  proof (cases "index_top (completer self) h (index self)")
    case None
    with "1.prems" show ?thesis
      by (simp add: eraseByTime_loop.simps store_grows_refl)
  next
    case (Some tp)
    show ?thesis
    proof (cases "is_expired (completer self) (h tp) t")
      case False
      with Some "1.prems" show ?thesis
        by (simp add: eraseByTime_loop.simps store_grows_refl)
    next
      case True
      with Some "1.prems" obtain iter h1 o1 d1 c1 where
        f: "find_batch h (internal_state self) tp = Some iter"
        and p: "operator_plus_batch h out iter = Inr (h1, o1, d1, c1)"
        and r: "eraseByTime_loop t h1
                  (self\<lparr>internal_state := remove1 iter (internal_state self),
                        index := remove1 tp (index self)\<rparr>) o1 = Inr (h', self', out')"
        by (auto simp: eraseByTime_loop.simps [of t h self] split: option.splits sum.splits)
      from True have ne: "\<not> \<not> is_expired (completer self) (h tp) t" by simp
      from "1.IH" [OF Some ne f p refl refl refl r] operator_plus_batch_grows [OF p]
      show ?thesis by (blast intro: store_grows_trans)
    qed
  qed
qed

lemma apply_operation_grows: "apply_operation x (h, s) = Inr (h', s') \<Longrightarrow> store_grows h h'"
  by (cases x)
     (auto simp: operator_plus_state_def eraseByTime_def split: sum.splits
       dest: operator_plus_batch_grows insert_each_grows eraseByTime_loop_grows)

lemma run_grows: "run xs (h, s) = Inr (h', s') \<Longrightarrow> store_grows h h'"
proof (induction xs arbitrary: h s)
  case Nil
  then show ?case by (simp add: store_grows_refl)
next
  case (Cons x xs)
  from Cons.prems obtain h1 s1 where 1: "apply_operation x (h, s) = Inr (h1, s1)"
    and 2: "run xs (h1, s1) = Inr (h', s')"
    by (auto split: sum.splits)
  from apply_operation_grows [OF 1] Cons.IH [OF 2] show ?case
    by (rule store_grows_trans)
qed

lemma store_grows_nth:
  assumes "store_grows h h'" and "i < length (transactions (h a))"
  shows "tx_grows (transactions (h a) ! i) (transactions (h' a) ! i)"
  using assms by (auto simp: store_grows_def batch_grows_def list_all2_conv_all_nth)

section \<open>Signatures only grow\<close>

text \<open>
  Claim C8. Every sequence of the operations that change a state (insertion of a batch,
  merge of another state, expiry) leaves each batch of the store, in particular each member,
  with the reduced hash, the creation time and the number of transactions it had, and each
  transaction with its quorum and with a list of signatures that starts with the list it
  had before: a signature is only ever added, at the end, and signatures with pairwise
  distinct public keys stay so. Hence the set of signatures observed earlier is a subset of
  the set observed later. \<^verbatim>\<open>operator-\<close>, \<^verbatim>\<open>operator==\<close>, \<^verbatim>\<open>getBatches\<close> and \<^verbatim>\<open>isEmpty\<close> do not write
  to the store. A batch is the object a pointer of the state refers to; a batch that is
  evicted on completion and inserted again under the same reduced hash is another object.
\<close>

theorem signatures_grow:
  assumes "run xs (h, s) = Inr (h', s')"
  shows "store_grows h h'
         \<and> (\<forall>a i. i < length (transactions (h a)) \<longrightarrow>
               set (signatures (transactions (h a) ! i))
                 \<subseteq> set (signatures (transactions (h' a) ! i)))"
proof -
  from assms have g: "store_grows h h'" by (rule run_grows)
  have "set (signatures (transactions (h a) ! i)) \<subseteq> set (signatures (transactions (h' a) ! i))"
    if "i < length (transactions (h a))" for a i
    using store_grows_nth [OF g that] by (rule tx_grows_subset)
  with g show ?thesis by blast
qed

lemma S1_second_insert:
  "operator_plus_batch S1_store S1_state 1 =
       Inr (S1_merged, S1_state\<lparr>internal_state := []\<rparr>, S1_state, True)"
  by (simp add: operator_plus_batch_unfold S1_store_def S1_state_def S1_merged_def scenario_defs)

theorem signatures_grow_witness:
  "run [Insert 0, Insert 1] (S1_store, empty_state (ttl_completer 10)) =
     Inr (S1_merged, S1_state\<lparr>internal_state := []\<rparr>)
   \<and> signatures (transactions (S1_store 0) ! 0) = [sig_of ''pk1'']
   \<and> signatures (transactions (S1_merged 0) ! 0) = [sig_of ''pk1'', sig_of ''pk2'']
   \<and> sig_of ''pk1'' \<in> set (signatures (transactions (S1_merged 0) ! 0))"
proof -
  have 1: "run [Insert 0, Insert 1] (S1_store, empty_state (ttl_completer 10)) =
     Inr (S1_merged, S1_state\<lparr>internal_state := []\<rparr>)"
    using S1_first_insert S1_second_insert by simp
  have 2: "signatures (transactions (S1_store 0) ! 0) = [sig_of ''pk1'']"
    and 3: "signatures (transactions (S1_merged 0) ! 0) = [sig_of ''pk1'', sig_of ''pk2'']"
    and 4: "0 < length (transactions (S1_store 0))"
    by (simp_all add: S1_store_def S1_merged_def store_of_def mk_batch_def)
  from signatures_grow [OF 1] 4
  have "set (signatures (transactions (S1_store 0) ! 0))
          \<subseteq> set (signatures (transactions (S1_merged 0) ! 0))"
    by blast
  with 2 have "sig_of ''pk1'' \<in> set (signatures (transactions (S1_merged 0) ! 0))"
    by simp
  with 1 2 3 show ?thesis by (intro conjI)
qed

lemma unique_hashes_distinct: "unique_hashes h xs \<Longrightarrow> distinct xs"
  by (simp add: unique_hashes_def distinct_map)

lemma unique_hashes_inj: "unique_hashes h xs \<Longrightarrow> inj_on (hash_of h) (set xs)"
  by (simp add: unique_hashes_def distinct_map)

lemma unique_hashes_same_set:
  "unique_hashes h xs \<Longrightarrow> set ys = set xs \<Longrightarrow> distinct ys \<Longrightarrow> unique_hashes h ys"
  by (simp add: unique_hashes_def distinct_map)

lemma sort_key_unique:
  assumes "unique_hashes h xs" and "set ys = set xs" and "distinct ys"
  shows "sort_key (\<lambda>a. reducedHash (h a)) ys = sort_key (\<lambda>a. reducedHash (h a)) xs"
proof -
  let ?f = "\<lambda>a. reducedHash (h a)"
  have f: "?f = hash_of h" by (simp add: hash_of_def fun_eq_iff)
  have inj: "inj_on ?f (set xs)" using assms(1) by (simp add: f unique_hashes_inj)
  have dx: "distinct (map ?f (sort_key ?f xs))"
    using assms(1) inj by (simp add: distinct_map unique_hashes_distinct)
  have dy: "distinct (map ?f (sort_key ?f ys))"
    using assms inj by (simp add: distinct_map)
  have "set (map ?f (sort_key ?f ys)) = set (map ?f (sort_key ?f xs))"
    using assms(2) by simp
  with dx dy have "map ?f (sort_key ?f ys) = map ?f (sort_key ?f xs)"
    by (intro sorted_distinct_set_unique) simp_all
  moreover have "inj_on ?f (set (sort_key ?f ys) \<union> set (sort_key ?f xs))"
    using inj assms(2) by simp
  ultimately show ?thesis
    by (simp add: inj_on_map_eq_map)
qed

lemma getBatches_same_members:
  assumes "unique_hashes h (internal_state A)" and "set (internal_state A') = set (internal_state A)"
    and "distinct (internal_state A')"
  shows "getBatches h A' = getBatches h A"
  unfolding getBatches_def using assms by (rule sort_key_unique)

lemma batch_eq_refl: "batch_eq b b"
  by (simp add: batch_eq_def tx_eq_def list_all2_refl)

lemma operator_eq_refl: "operator_eq h A A"
  by (simp add: operator_eq_def batch_eq_refl list_all2_refl)

section \<open>Equality of states\<close>

text \<open>
  Claim C10. \<^verbatim>\<open>operator==\<close> compares the two sequences \<open>getBatches\<close> returns, which are sorted
  ascending by the hex of the reduced hash: it holds exactly when the sequences have the
  same length and the batches at each position are structurally equal. The completer, the
  expiry index and the order of insertion have no part in it: a state \<open>A'\<close> with the same
  members as \<open>A\<close>, held in any order, with any completer and any index, returns the same
  sequence and compares with every state as \<open>A\<close> does. The members are a set keyed by
  reduced hash, so their reduced hashes are pairwise distinct.
\<close>

theorem operator_eq_sorted_batches:
  assumes "unique_hashes h (internal_state A)"
    and "set (internal_state A') = set (internal_state A)"
    and "distinct (internal_state A')"
  shows "(operator_eq h A B \<longleftrightarrow>
            length (getBatches h A) = length (getBatches h B)
            \<and> (\<forall>i<length (getBatches h A).
                  batch_eq (h (getBatches h A ! i)) (h (getBatches h B ! i))))
         \<and> sorted (map (\<lambda>a. reducedHash (h a)) (getBatches h A))
         \<and> getBatches h A' = getBatches h A
         \<and> operator_eq h A' B = operator_eq h A B
         \<and> operator_eq h B A' = operator_eq h B A"
proof -
  have "getBatches h A' = getBatches h A"
    using assms by (rule getBatches_same_members)
  then show ?thesis
    by (simp add: operator_eq_def list_all2_conv_all_nth getBatches_def)
qed

theorem operator_eq_sorted_batches_witness:
  "unique_hashes eq_store (internal_state eq_A)
   \<and> set (internal_state eq_A') = set (internal_state eq_A)
   \<and> distinct (internal_state eq_A')
   \<and> getBatches eq_store eq_A = [1, 0]
   \<and> getBatches eq_store eq_A' = [1, 0]
   \<and> operator_eq eq_store eq_A eq_A
   \<and> operator_eq eq_store eq_A' eq_A"
proof -
  have 1: "unique_hashes eq_store (internal_state eq_A)"
    and 2: "set (internal_state eq_A') = set (internal_state eq_A)"
    and 3: "distinct (internal_state eq_A')"
    and 4: "getBatches eq_store eq_A = [1, 0]"
    by (auto simp: eq_store_def eq_A_def eq_A'_def scenario_defs)
  have 5: "operator_eq eq_store eq_A eq_A"
    by (rule operator_eq_refl)
  from operator_eq_sorted_batches [OF 1 2 3, of eq_A] 4 5
  have "getBatches eq_store eq_A' = [1, 0]" and "operator_eq eq_store eq_A' eq_A"
    by simp_all
  with 1 2 3 4 5 show ?thesis by (intro conjI)
qed

lemma foldl_set_insert_unique:
  "unique_hashes h (ys @ xs) \<Longrightarrow> foldl (set_insert h) ys xs = ys @ xs"
proof (induction xs arbitrary: ys)
  case Nil
  then show ?case by simp
next
  case (Cons x xs)
  from Cons.prems have "hash_of h x \<notin> hash_of h ` set ys"
    by (auto simp: unique_hashes_def)
  then have "find_batch h ys x = None"
    by (simp add: find_batch_None)
  then have "set_insert h ys x = ys @ [x]"
    by (simp add: set_insert_def)
  with Cons.IH [of "ys @ [x]"] Cons.prems show ?case by simp
qed

lemma unique_hashes_filter: "unique_hashes h xs \<Longrightarrow> unique_hashes h (filter P xs)"
  by (simp add: unique_hashes_def distinct_map_filter)

lemma set_difference_hash:
  "set_difference h left right =
     filter (\<lambda>a. reducedHash (h a) \<notin> (\<lambda>c. reducedHash (h c)) ` set right) left"
  by (simp add: set_difference_def find_batch_None hash_of_def)

lemma set_difference_hash_cong:
  assumes "\<And>a. reducedHash (h' a) = reducedHash (h a)"
  shows "set_difference h' left right = set_difference h left right"
  by (simp add: set_difference_hash assms)

lemma foldl_set_insert_cong:
  assumes "\<And>a. reducedHash (h' a) = reducedHash (h a)"
  shows "foldl (set_insert h') ys xs = foldl (set_insert h) ys xs"
proof -
  have "hash_of h' a = hash_of h a" for a by (simp add: hash_of_def assms)
  then have "set_insert h' = set_insert h"
    by (simp add: set_insert_def fun_eq_iff find_batch_hash_cong [of h' h])
  then show ?thesis by simp
qed

section \<open>Difference of states\<close>

text \<open>
  Claim C5. \<^verbatim>\<open>operator-\<close> returns a state built from \<^verbatim>\<open>set_difference\<close> of the two member
  sets: its members, and the entries of its expiry index, are exactly the members of \<open>A\<close>
  whose reduced hash is the reduced hash of no member of \<open>B\<close>, and its completer is that of
  \<open>A\<close>. Only reduced hashes are read: in any store that gives every batch the same reduced
  hash, whatever the signatures, the result is the same. The operation is a function of the
  store and the two states and returns a new state; it writes to none of them.
  \<^verbatim>\<open>set_difference\<close> is not among the sources at hand and is modelled from the specification.
\<close>

theorem difference_members:
  assumes "unique_hashes h (internal_state A)"
  shows "internal_state (operator_minus h A B) =
           filter (\<lambda>a. reducedHash (h a) \<notin> (\<lambda>c. reducedHash (h c)) ` set (internal_state B))
             (internal_state A)
         \<and> index (operator_minus h A B) = internal_state (operator_minus h A B)
         \<and> completer (operator_minus h A B) = completer A
         \<and> (\<forall>h'. (\<forall>a. reducedHash (h' a) = reducedHash (h a)) \<longrightarrow>
                operator_minus h' A B = operator_minus h A B)"
proof -
  let ?d = "set_difference h (internal_state A) (internal_state B)"
  have "unique_hashes h ([] @ ?d)"
    using assms by (simp add: set_difference_def unique_hashes_filter)
  from foldl_set_insert_unique [OF this] have "foldl (set_insert h) [] ?d = ?d"
    by simp
  then have 1: "internal_state (operator_minus h A B) = ?d"
    and 2: "index (operator_minus h A B) = internal_state (operator_minus h A B)"
    and 3: "completer (operator_minus h A B) = completer A"
    by (simp_all add: operator_minus_def MstState_def)
  have 4: "operator_minus h' A B = operator_minus h A B"
    if eq: "\<forall>a. reducedHash (h' a) = reducedHash (h a)" for h'
  proof -
    from eq have e: "\<And>a. reducedHash (h' a) = reducedHash (h a)" by simp
    have "set_difference h' (internal_state A) (internal_state B) = ?d"
      using e by (rule set_difference_hash_cong)
    moreover have "foldl (set_insert h') [] ?d = foldl (set_insert h) [] ?d"
      using e by (rule foldl_set_insert_cong)
    ultimately show ?thesis
      by (simp add: operator_minus_def MstState_def)
  qed
  from 1 have m: "internal_state (operator_minus h A B) =
           filter (\<lambda>a. reducedHash (h a) \<notin> (\<lambda>c. reducedHash (h c)) ` set (internal_state B))
             (internal_state A)"
    by (simp add: set_difference_hash)
  from 4 have "\<forall>h'. (\<forall>a. reducedHash (h' a) = reducedHash (h a)) \<longrightarrow>
                operator_minus h' A B = operator_minus h A B"
    by blast
  with m 2 3 show ?thesis
    by (intro conjI)
qed

theorem difference_members_witness:
  "unique_hashes S4_store (internal_state S4_A)
   \<and> internal_state (operator_minus S4_store S4_A S4_B) = [2, 0]
   \<and> index (operator_minus S4_store S4_A S4_B) = [2, 0]
   \<and> getBatches S4_store (operator_minus S4_store S4_A S4_B) = [0, 2]"
proof -
  have 1: "unique_hashes S4_store (internal_state S4_A)"
    by (simp add: S4_store_def S4_A_def scenario_defs)
  have "filter (\<lambda>a. reducedHash (S4_store a) \<notin>
            (\<lambda>c. reducedHash (S4_store c)) ` set (internal_state S4_B)) (internal_state S4_A)
          = [2, 0]"
    by (simp add: S4_store_def S4_A_def S4_B_def scenario_defs)
  with difference_members [OF 1, of S4_B, THEN conjunct1]
  have 2: "internal_state (operator_minus S4_store S4_A S4_B) = [2, 0]"
    by simp
  with difference_members [OF 1, of S4_B, THEN conjunct2, THEN conjunct1]
  have 3: "index (operator_minus S4_store S4_A S4_B) = [2, 0]"
    by simp
  have 4: "getBatches S4_store (operator_minus S4_store S4_A S4_B) = [0, 2]"
    by (simp add: getBatches_def 2) (simp add: S4_store_def scenario_defs)
  from 1 2 3 4 show ?thesis by (intro conjI)
qed


section \<open>The transaction queue\<close>



lemma index_top_None: "index_top c h xs = None \<longleftrightarrow> xs = []"
  by (cases xs) (auto split: option.splits)

lemma index_top_least:
  "index_top c h xs = Some a \<Longrightarrow>
   a \<in> set xs \<and> (\<forall>b\<in>set xs. expiry_key c (h a) \<le> expiry_key c (h b))"
proof (induction xs arbitrary: a)
  case Nil
  then show ?case by simp
next
  case (Cons x xs)
  show ?case
  proof (cases "index_top c h xs")
    case None
    then have "xs = []" by (simp add: index_top_None)
    with Cons.prems show ?thesis by simp
  next
    case (Some b)
    from Cons.IH [OF Some] Cons.prems Some show ?thesis
      by (auto split: if_splits)
  qed
qed

lemma remove1_filter: "distinct xs \<Longrightarrow> remove1 x xs = filter (\<lambda>a. a \<noteq> x) xs"
proof (induction xs)
  case Nil
  then show ?case by simp
next
  case (Cons a xs)
  show ?case
  proof (cases "a = x")
    case True
    with Cons.prems have "x \<notin> set xs" by simp
    then have "filter (\<lambda>a. a \<noteq> x) xs = xs"
      by (auto simp: filter_id_conv)
    with True show ?thesis by simp
  next
    case False
    with Cons show ?thesis by simp
  qed
qed

lemma unique_hashes_remove1: "unique_hashes h xs \<Longrightarrow> unique_hashes h (remove1 x xs)"
  by (auto simp: unique_hashes_def distinct_map intro: inj_on_diff)

lemma eraseByTime_loop_coherent:
  "unique_hashes h (internal_state s) \<Longrightarrow>
   set (index s) = set (internal_state s) \<Longrightarrow> distinct (index s) \<Longrightarrow>
   hash_of h ` set (internal_state out) \<inter> hash_of h ` set (internal_state s) = {} \<Longrightarrow>
   \<exists>s' out' popped.
      eraseByTime_loop t h s out = Inr (h, s', out')
      \<and> completer s' = completer s \<and> completer out' = completer out
      \<and> internal_state out' = internal_state out @ popped
      \<and> index out' = index out @ popped
      \<and> distinct popped \<and> set popped \<subseteq> set (internal_state s)
      \<and> internal_state s' = filter (\<lambda>a. a \<notin> set popped) (internal_state s)
      \<and> index s' = filter (\<lambda>a. a \<notin> set popped) (index s)
      \<and> (\<forall>a\<in>set popped. is_expired (completer s) (h a) t)
      \<and> (\<forall>a\<in>set popped. \<forall>m\<in>set (internal_state s').
            expiry_key (completer s) (h a) \<le> expiry_key (completer s) (h m))
      \<and> (\<forall>tp. index_top (completer s) h (index s') = Some tp \<longrightarrow>
            \<not> is_expired (completer s) (h tp) t)"
proof (induction t h s out rule: eraseByTime_loop.induct)
  case (1 t h self out)
  note uniq = "1.prems"(1) and coh = "1.prems"(2) and dist = "1.prems"(3) and disj = "1.prems"(4)
  let ?c = "completer self"
  show ?case
  proof (cases "index_top ?c h (index self)")
    case None
    then have "eraseByTime_loop t h self out = Inr (h, self, out)"
      by (simp add: eraseByTime_loop.simps)
    with None show ?thesis
      by (intro exI [of _ self, OF exI [of _ out, OF exI [of _ "[]"]]]) simp
  next
    case (Some tp)
    show ?thesis
    proof (cases "is_expired ?c (h tp) t")
      case False
      with Some have "eraseByTime_loop t h self out = Inr (h, self, out)"
        by (simp add: eraseByTime_loop.simps)
      with Some False show ?thesis
        by (intro exI [of _ self, OF exI [of _ out, OF exI [of _ "[]"]]]) simp
    next
      case True
      from index_top_least [OF Some]
      have tp_idx: "tp \<in> set (index self)"
        and least: "\<forall>b\<in>set (index self). expiry_key ?c (h tp) \<le> expiry_key ?c (h b)"
        by simp_all
      from tp_idx coh have tp_mem: "tp \<in> set (internal_state self)" by simp
      have f: "find_batch h (internal_state self) tp = Some tp"
        using uniq tp_mem by (rule find_batch_member) simp
      have "hash_of h tp \<notin> hash_of h ` set (internal_state out)"
        using disj tp_mem by blast
      then have fresh: "find_batch h (internal_state out) tp = None"
        by (simp add: find_batch_None)
      let ?out1 = "rawInsert h out tp"
      let ?s1 = "self\<lparr>internal_state := remove1 tp (internal_state self),
                       index := remove1 tp (index self)\<rparr>"
      have p: "operator_plus_batch h out tp =
                 Inr (h, ?out1, rawInsert h (empty_state (completer out)) tp, False)"
        using fresh by (simp add: operator_plus_batch_unfold)
      have out1: "internal_state ?out1 = internal_state out @ [tp]"
        "index ?out1 = index out @ [tp]" "completer ?out1 = completer out"
        using fresh by (simp_all add: rawInsert_def set_insert_fresh)
      have dmem: "distinct (internal_state self)"
        using uniq by (simp add: unique_hashes_def distinct_map)
      have u1: "unique_hashes h (internal_state ?s1)"
        using uniq by (simp add: unique_hashes_remove1)
      have c1: "set (index ?s1) = set (internal_state ?s1)"
        using coh dist dmem by simp
      have d1: "distinct (index ?s1)"
        using dist by simp
      have "hash_of h tp \<notin> hash_of h ` set (remove1 tp (internal_state self))"
        using uniq tp_mem by (rule unique_hashes_remove1_absent)
      moreover have "set (remove1 tp (internal_state self)) \<subseteq> set (internal_state self)"
        by (rule set_remove1_subset)
      ultimately have j1: "hash_of h ` set (internal_state ?out1)
                             \<inter> hash_of h ` set (internal_state ?s1) = {}"
        using disj by (auto simp: out1)
      from True have ne: "\<not> \<not> is_expired ?c (h tp) t" by simp
      from "1.IH" [OF Some ne f p refl refl refl u1 c1 d1 j1]
      obtain s' out' popped where
        loop: "eraseByTime_loop t h ?s1 ?out1 = Inr (h, s', out')"
        and cs: "completer s' = ?c" and co: "completer out' = completer out"
        and io: "internal_state out' = (internal_state out @ [tp]) @ popped"
        and xo: "index out' = (index out @ [tp]) @ popped"
        and dp: "distinct popped"
        and sp: "set popped \<subseteq> set (remove1 tp (internal_state self))"
        and is': "internal_state s' =
                    filter (\<lambda>a. a \<notin> set popped) (remove1 tp (internal_state self))"
        and xs': "index s' = filter (\<lambda>a. a \<notin> set popped) (remove1 tp (index self))"
        and ex: "\<forall>a\<in>set popped. is_expired ?c (h a) t"
        and le: "\<forall>a\<in>set popped. \<forall>m\<in>set (internal_state s').
                   expiry_key ?c (h a) \<le> expiry_key ?c (h m)"
        and stop: "\<forall>x. index_top ?c h (index s') = Some x \<longrightarrow> \<not> is_expired ?c (h x) t"
        by (auto simp: out1)
      have whole: "eraseByTime_loop t h self out = Inr (h, s', out')"
        using Some True f p loop by (simp add: eraseByTime_loop.simps [of t h self])
      have tp_not: "tp \<notin> set popped"
        using sp dmem by auto
      have sub: "set (tp # popped) \<subseteq> set (internal_state self)"
        using sp tp_mem set_remove1_subset [of tp "internal_state self"] by auto
      have fi: "internal_state s' = filter (\<lambda>a. a \<notin> set (tp # popped)) (internal_state self)"
        using is' dmem by (auto simp: remove1_filter intro: filter_cong)
      have fx: "index s' = filter (\<lambda>a. a \<notin> set (tp # popped)) (index self)"
        using xs' dist by (auto simp: remove1_filter intro: filter_cong)
      have "set (internal_state s') \<subseteq> set (index self)"
        using fi coh by auto
      with least have le_tp: "\<forall>m\<in>set (internal_state s').
                   expiry_key ?c (h tp) \<le> expiry_key ?c (h m)"
        by blast
      from whole cs co io xo dp tp_not sub fi fx ex True le le_tp stop show ?thesis
        by (intro exI [of _ s', OF exI [of _ out', OF exI [of _ "tp # popped"]]]) simp
    qed
  qed
qed

section \<open>Expiry\<close>

text \<open>
  Claim C4, as stated, fails on its example. With a time to live of 10, a batch created at 0
  is not expired at time 8 (\<open>8 - 0 < 10\<close>): after the insertion of \<open>b1\<close> created at 0 and
  \<open>b2\<close> created at 5, \<open>eraseByTime 8\<close> returns the empty state and the state keeps both.
\<close>

theorem S3_nothing_expired_at_8:
  "operator_plus_batch S3_store (empty_state (ttl_completer 10)) 0 =
     Inr (S3_store, S1_state, S1_state, False)
   \<and> operator_plus_batch S3_store S1_state 1 = Inr (S3_store, S3_state, S3_retained, False)
   \<and> eraseByTime S3_store S3_state 8 = Inr (S3_store, S3_state, empty_state (ttl_completer 10))
   \<and> getBatches S3_store S3_state = [0, 1]"
  by (simp add: operator_plus_batch_unfold eraseByTime_def eraseByTime_loop.simps
      S3_store_def S3_state_def S3_retained_def S1_state_def scenario_defs)

text \<open>
  Claim C4, amended. Take a state whose members have pairwise distinct reduced hashes and
  whose expiry index holds every member exactly once and nothing else. Then \<open>eraseByTime t\<close>
  returns, leaves the store as it is, and pops the index while its top, an entry of least
  expiry key, is expired at \<open>t\<close>: the batches it returns, as members and as index of a new
  state and in the order they were popped, are members that are expired at \<open>t\<close> and whose
  keys are at most the keys of the members that remain; they are removed from the members
  and from the index; and the top of the remaining index is not expired. If moreover expiry
  follows the key (a member whose key is at most the key of an expired member is expired),
  no remaining member is expired at \<open>t\<close>. The witness is scenario S3 at time 12: \<open>b1\<close> is
  returned and \<open>b2\<close> retained.
\<close>

theorem eraseByTime_coherent:
  assumes uniq: "unique_hashes h (internal_state s)"
    and coh: "set (index s) = set (internal_state s)"
    and dist: "distinct (index s)"
  shows "\<exists>s' out.
      eraseByTime h s t = Inr (h, s', out)
      \<and> completer s' = completer s \<and> completer out = completer s
      \<and> index out = internal_state out \<and> distinct (internal_state out)
      \<and> set (internal_state out) \<subseteq> set (internal_state s)
      \<and> internal_state s' = filter (\<lambda>a. a \<notin> set (internal_state out)) (internal_state s)
      \<and> index s' = filter (\<lambda>a. a \<notin> set (internal_state out)) (index s)
      \<and> (\<forall>a\<in>set (internal_state out). is_expired (completer s) (h a) t)
      \<and> (\<forall>a\<in>set (internal_state out). \<forall>m\<in>set (internal_state s').
            expiry_key (completer s) (h a) \<le> expiry_key (completer s) (h m))
      \<and> (\<forall>tp. index_top (completer s) h (index s') = Some tp \<longrightarrow>
            \<not> is_expired (completer s) (h tp) t)
      \<and> ((\<forall>a\<in>set (internal_state s). \<forall>b\<in>set (internal_state s).
              expiry_key (completer s) (h a) \<le> expiry_key (completer s) (h b) \<longrightarrow>
              is_expired (completer s) (h b) t \<longrightarrow> is_expired (completer s) (h a) t)
           \<longrightarrow> (\<forall>m\<in>set (internal_state s'). \<not> is_expired (completer s') (h m) t))"
proof -
  let ?c = "completer s"
  have "hash_of h ` set (internal_state (empty_state ?c)) \<inter> hash_of h ` set (internal_state s) = {}"
    by (simp add: empty_state_def)
  from eraseByTime_loop_coherent [OF uniq coh dist this, of t]
  obtain s' out where
    loop: "eraseByTime_loop t h s (empty_state ?c) = Inr (h, s', out)"
    and cs: "completer s' = ?c" and co: "completer out = ?c"
    and xo: "index out = internal_state out"
    and dp: "distinct (internal_state out)"
    and sp: "set (internal_state out) \<subseteq> set (internal_state s)"
    and is': "internal_state s' = filter (\<lambda>a. a \<notin> set (internal_state out)) (internal_state s)"
    and xs': "index s' = filter (\<lambda>a. a \<notin> set (internal_state out)) (index s)"
    and ex: "\<forall>a\<in>set (internal_state out). is_expired ?c (h a) t"
    and le: "\<forall>a\<in>set (internal_state out). \<forall>m\<in>set (internal_state s').
               expiry_key ?c (h a) \<le> expiry_key ?c (h m)"
    and stop: "\<forall>x. index_top ?c h (index s') = Some x \<longrightarrow> \<not> is_expired ?c (h x) t"
    by (auto simp: empty_state_def)
  have rest: "\<forall>m\<in>set (internal_state s'). \<not> is_expired (completer s') (h m) t"
    if mono: "\<forall>a\<in>set (internal_state s). \<forall>b\<in>set (internal_state s).
              expiry_key ?c (h a) \<le> expiry_key ?c (h b) \<longrightarrow>
              is_expired ?c (h b) t \<longrightarrow> is_expired ?c (h a) t"
  proof
    fix m assume m: "m \<in> set (internal_state s')"
    have same: "set (index s') = set (internal_state s')"
      using is' xs' coh by auto
    with m have "index s' \<noteq> []" by auto
    then obtain tp where tp: "index_top ?c h (index s') = Some tp"
      by (cases "index_top ?c h (index s')") (auto simp: index_top_None)
    from index_top_least [OF tp] same m
    have tp_mem: "tp \<in> set (internal_state s')"
      and "expiry_key ?c (h tp) \<le> expiry_key ?c (h m)"
      by auto
    moreover from stop tp have "\<not> is_expired ?c (h tp) t" by simp
    moreover from tp_mem m is' have "tp \<in> set (internal_state s)" "m \<in> set (internal_state s)"
      by auto
    ultimately have "\<not> is_expired ?c (h m) t"
      using mono by blast
    with cs show "\<not> is_expired (completer s') (h m) t" by simp
  qed
  have e: "eraseByTime h s t = Inr (h, s', out)"
    using loop by (simp add: eraseByTime_def)
  from rest have rest': "(\<forall>a\<in>set (internal_state s). \<forall>b\<in>set (internal_state s).
              expiry_key ?c (h a) \<le> expiry_key ?c (h b) \<longrightarrow>
              is_expired ?c (h b) t \<longrightarrow> is_expired ?c (h a) t)
           \<longrightarrow> (\<forall>m\<in>set (internal_state s'). \<not> is_expired (completer s') (h m) t)"
    by blast
  from e cs co xo dp sp is' xs' ex le stop rest' show ?thesis
    by (intro exI [of _ s', OF exI [of _ out]]) (intro conjI; assumption)
qed

theorem eraseByTime_coherent_witness:
  "unique_hashes S3_store (internal_state S3_state)
   \<and> set (index S3_state) = set (internal_state S3_state)
   \<and> distinct (index S3_state)
   \<and> eraseByTime S3_store S3_state 12 = Inr (S3_store, S3_retained, S1_state)
   \<and> getBatches S3_store S1_state = [0]
   \<and> getBatches S3_store S3_retained = [1]
   \<and> is_expired (completer S3_state) (S3_store 0) 12
   \<and> \<not> is_expired (completer S3_retained) (S3_store 1) 12"
proof -
  have 1: "unique_hashes S3_store (internal_state S3_state)"
    and 2: "set (index S3_state) = set (internal_state S3_state)"
    and 3: "distinct (index S3_state)"
    by (simp_all add: S3_store_def S3_state_def scenario_defs)
  have 4: "eraseByTime S3_store S3_state 12 = Inr (S3_store, S3_retained, S1_state)"
    by (simp add: operator_plus_batch_unfold eraseByTime_def eraseByTime_loop.simps
      S3_store_def S3_state_def S3_retained_def S1_state_def scenario_defs)
  have 5: "getBatches S3_store S1_state = [0]" and 6: "getBatches S3_store S3_retained = [1]"
    by (simp_all add: getBatches_def S1_state_def S3_retained_def)
  have mono: "\<forall>a\<in>set (internal_state S3_state). \<forall>b\<in>set (internal_state S3_state).
      expiry_key (completer S3_state) (S3_store a) \<le> expiry_key (completer S3_state) (S3_store b) \<longrightarrow>
      is_expired (completer S3_state) (S3_store b) 12 \<longrightarrow>
      is_expired (completer S3_state) (S3_store a) 12"
    by (simp add: S3_store_def S3_state_def scenario_defs)
  from eraseByTime_coherent [OF 1 2 3, of 12] 4 mono
  have "\<forall>a\<in>set (internal_state S1_state). is_expired (completer S3_state) (S3_store a) 12"
    and "\<forall>m\<in>set (internal_state S3_retained). \<not> is_expired (completer S3_retained) (S3_store m) 12"
    by auto
  then have 7: "is_expired (completer S3_state) (S3_store 0) 12"
    and 8: "\<not> is_expired (completer S3_retained) (S3_store 1) 12"
    by (simp_all add: S1_state_def S3_retained_def)
  from 1 2 3 4 5 6 7 8 show ?thesis by (intro conjI)
qed

lemma insert_members_grows:
  "insert_members c h xs b = Inr (h', xs', r) \<Longrightarrow> store_grows h h'"
  by (auto simp: insert_members_def store_grows_refl split: option.splits sum.splits if_splits
      dest: mergeSignaturesInBatch_grows)

lemma insert_members_report:
  "insert_members c h xs b = Inr (h', xs', Some a) \<Longrightarrow> hash_of h a = hash_of h b"
  by (auto simp: insert_members_def split: option.splits sum.splits if_splits
      dest: find_batch_Some)

lemma insertOne_insert_members:
  assumes res: "insertOne h s out b = Inr (h', s', out', c)"
    and fresh: "hash_of h b \<notin> hashes h (internal_state out)"
  shows "\<exists>r. insert_members (completer s) h (internal_state s) b = Inr (h', internal_state s', r)
             \<and> completer s' = completer s \<and> completer out' = completer out
             \<and> internal_state out' = internal_state out @ (case r of None \<Rightarrow> [] | Some a \<Rightarrow> [a])"
proof (cases "find_batch h (internal_state s) b")
  case None
  from fresh have "find_batch h (internal_state out) b = None"
    by (simp add: find_batch_None hashes_def)
  with None res show ?thesis
    by (auto simp: insertOne_unfold insert_members_def rawInsert_def set_insert_fresh)
next
  case (Some f)
  then have fb: "hash_of h f = hash_of h b" by (simp add: find_batch_Some)
  from res Some obtain h1 ins where m: "mergeSignaturesInBatch h f b = Inr (h1, ins)"
    by (auto simp: insertOne_unfold split: sum.splits)
  have hash1: "hash_of h1 a = hash_of h a" for a
    using m by (auto dest!: mergeSignaturesInBatch_grows store_grows_hash)
  have "hash_of h1 f \<notin> hash_of h1 ` set (internal_state out)"
    using fresh fb hash1 by (simp add: hashes_def)
  then have fo: "find_batch h1 (internal_state out) f = None"
    by (simp add: find_batch_None)
  show ?thesis
  proof (cases "is_complete (completer s) (h1 f)")
    case True
    have "operator_plus_batch h1 out f =
            Inr (h1, rawInsert h1 out f, rawInsert h1 (empty_state (completer out)) f, False)"
      using fo by (simp add: operator_plus_batch_unfold)
    with res Some m True fo show ?thesis
      by (auto simp: insertOne_unfold insert_members_def rawInsert_def set_insert_fresh)
  next
    case False
    with res Some m fo show ?thesis
      by (auto simp: insertOne_unfold insert_members_def rawInsert_def set_insert_fresh
          split: if_splits)
  qed
qed

lemma operator_plus_batch_insert_members:
  assumes "operator_plus_batch h s b = Inr (h', s', d, c)"
  shows "\<exists>r. insert_members (completer s) h (internal_state s) b = Inr (h', internal_state s', r)
             \<and> completer s' = completer s"
proof -
  have "hash_of h b \<notin> hashes h (internal_state (empty_state (completer s)))"
    by (simp add: hashes_def empty_state_def)
  from insertOne_insert_members [OF assms [unfolded operator_plus_batch_def] this]
  show ?thesis by blast
qed

lemma insert_each_insert_members:
  "insert_each h s out bs = Inr (h', s', out') \<Longrightarrow>
   unique_hashes h bs \<Longrightarrow> hashes h (internal_state out) \<inter> hashes h bs = {} \<Longrightarrow>
   \<exists>rs. insert_members_each (completer s) h (internal_state s) bs = Inr (h', internal_state s', rs)
        \<and> completer s' = completer s
        \<and> internal_state out' = internal_state out @ rs"
proof (induction bs arbitrary: h s out)
  case Nil
  then show ?case by simp
next
  case (Cons b bs)
  from Cons.prems(1) obtain h1 s1 o1 c1 where
    one: "insertOne h s out b = Inr (h1, s1, o1, c1)"
    and rest: "insert_each h1 s1 o1 bs = Inr (h', s', out')"
    by (auto split: sum.splits)
  have fresh: "hash_of h b \<notin> hashes h (internal_state out)"
    using Cons.prems(3) by (auto simp: hashes_def)
  from insertOne_insert_members [OF one fresh] obtain r where
    im: "insert_members (completer s) h (internal_state s) b = Inr (h1, internal_state s1, r)"
    and cs: "completer s1 = completer s"
    and o1: "internal_state o1 = internal_state out @ (case r of None \<Rightarrow> [] | Some a \<Rightarrow> [a])"
    by blast
  have hash1: "hash_of h1 a = hash_of h a" for a
    using one by (auto dest!: insertOne_grows store_grows_hash)
  then have hs: "hashes h1 ys = hashes h ys" for ys
    by (simp add: hashes_def)
  have u1: "unique_hashes h1 bs"
    using Cons.prems(2) unique_hashes_cong [of h1 h bs, OF hash1]
    by (simp add: unique_hashes_def)
  have nb: "hash_of h b \<notin> hashes h bs"
    using Cons.prems(2) by (simp add: unique_hashes_def hashes_def)
  have "hashes h (case r of None \<Rightarrow> [] | Some a \<Rightarrow> [a]) \<subseteq> {hash_of h b}"
    using im by (cases r) (auto simp: hashes_def dest: insert_members_report)
  with nb Cons.prems(3) have d1: "hashes h1 (internal_state o1) \<inter> hashes h1 bs = {}"
    unfolding hs o1 by (auto simp: hashes_def)
  from Cons.IH [OF rest u1 d1] obtain rs where
    "insert_members_each (completer s1) h1 (internal_state s1) bs = Inr (h', internal_state s', rs)"
    "completer s' = completer s1" "internal_state out' = internal_state o1 @ rs"
    by blast
  with im cs o1 show ?case by simp
qed

lemma find_batch_append:
  "find_batch h (xs @ ys) b =
     (case find_batch h xs b of Some a \<Rightarrow> Some a | None \<Rightarrow> find_batch h ys b)"
  by (induction xs) auto

lemma find_batch_remove1_other:
  "hash_of h f \<noteq> hash_of h b \<Longrightarrow> find_batch h (remove1 f xs) b = find_batch h xs b"
  by (induction xs) (auto simp: hash_of_def)

lemma unique_hashes_store_grows:
  "store_grows h h' \<Longrightarrow> unique_hashes h' xs = unique_hashes h xs"
  using unique_hashes_cong [of h' h xs] by (simp add: store_grows_hash)

lemma find_batch_store_grows:
  "store_grows h h' \<Longrightarrow> find_batch h' xs b = find_batch h xs b"
  using find_batch_hash_cong [of h' h xs b] by (simp add: store_grows_hash)

lemma insert_members_unique:
  assumes "insert_members c h xs b = Inr (h', xs', r)" and "unique_hashes h xs"
  shows "unique_hashes h' xs'"
proof -
  have g: "store_grows h h'" using assms(1) by (rule insert_members_grows)
  have "unique_hashes h xs'"
  proof (cases "find_batch h xs b")
    case None
    then have "hash_of h b \<notin> hash_of h ` set xs" by (simp add: find_batch_None)
    moreover from None assms(1) have "xs' = xs @ [b]" by (simp add: insert_members_def)
    ultimately show ?thesis using assms(2) by (simp add: unique_hashes_def)
  next
    case (Some f)
    with assms(1) have "xs' = remove1 f xs \<or> xs' = xs"
      by (auto simp: insert_members_def split: sum.splits if_splits)
    with assms(2) show ?thesis by (auto simp: unique_hashes_remove1)
  qed
  with g show ?thesis by (simp add: unique_hashes_store_grows)
qed

lemma insert_members_same_members:
  assumes res: "insert_members c h xs b = Inr (h', xs', r)"
    and ux: "unique_hashes h xs" and uy: "unique_hashes h ys" and same: "set ys = set xs"
  shows "\<exists>ys'. insert_members c h ys b = Inr (h', ys', r) \<and> set ys' = set xs'"
proof (cases "find_batch h xs b")
  case None
  then have "find_batch h ys b = None" using same by (simp add: find_batch_None)
  with None res same show ?thesis by (auto simp: insert_members_def)
next
  case (Some f)
  then have "f \<in> set ys" "hash_of h b = hash_of h f"
    using same by (auto dest: find_batch_Some)
  with uy have fy: "find_batch h ys b = Some f" by (rule find_batch_member)
  have "set (remove1 f ys) = set (remove1 f xs)"
    using ux uy same by (simp add: unique_hashes_distinct)
  with res Some fy same show ?thesis
    by (auto simp: insert_members_def split: sum.splits if_splits)
qed

lemma mergeSignaturesInBatch_swap:
  assumes ne: "f1 \<noteq> f2" "f1 \<noteq> b2" "f2 \<noteq> b1"
    and m1: "mergeSignaturesInBatch h f1 b1 = Inr (h1, i1)"
    and m2: "mergeSignaturesInBatch h1 f2 b2 = Inr (h12, i2)"
  shows "\<exists>h2. mergeSignaturesInBatch h f2 b2 = Inr (h2, i2)
              \<and> mergeSignaturesInBatch h2 f1 b1 = Inr (h12, i1)
              \<and> h2 f2 = h12 f2 \<and> h12 f1 = h1 f1"
proof -
  from m1 obtain t1 where
    c1: "merge_combined (transactions (h f1)) (transactions (h b1)) False = Inr (t1, i1)"
    and h1: "h1 = h(f1 := (h f1)\<lparr>transactions := t1\<rparr>)"
    by (auto simp: mergeSignaturesInBatch_def split: sum.splits)
  from m2 obtain t2 where
    c2: "merge_combined (transactions (h1 f2)) (transactions (h1 b2)) False = Inr (t2, i2)"
    and h12: "h12 = h1(f2 := (h1 f2)\<lparr>transactions := t2\<rparr>)"
    by (auto simp: mergeSignaturesInBatch_def split: sum.splits)
  let ?h2 = "h(f2 := (h f2)\<lparr>transactions := t2\<rparr>)"
  from c2 ne h1 have c2': "merge_combined (transactions (h f2)) (transactions (h b2)) False = Inr (t2, i2)"
    by simp
  then have a: "mergeSignaturesInBatch h f2 b2 = Inr (?h2, i2)"
    by (simp add: mergeSignaturesInBatch_def)
  have "merge_combined (transactions (?h2 f1)) (transactions (?h2 b1)) False = Inr (t1, i1)"
    using c1 ne by simp
  then have "mergeSignaturesInBatch ?h2 f1 b1 = Inr (?h2(f1 := (?h2 f1)\<lparr>transactions := t1\<rparr>), i1)"
    by (simp add: mergeSignaturesInBatch_def)
  moreover have "?h2(f1 := (?h2 f1)\<lparr>transactions := t1\<rparr>) = h12"
    using ne by (auto simp: h12 h1 fun_eq_iff)
  ultimately have b: "mergeSignaturesInBatch ?h2 f1 b1 = Inr (h12, i1)" by simp
  have "?h2 f2 = h12 f2" "h12 f1 = h1 f1"
    using ne by (simp_all add: h12 h1)
  with a b show ?thesis by blast
qed

lemma insert_members_fresh:
  "find_batch h xs b = None \<Longrightarrow> insert_members c h xs b = Inr (h, xs @ [b], Some b)"
  by (simp add: insert_members_def)

lemma insert_members_found:
  "find_batch h xs b = Some f \<Longrightarrow> mergeSignaturesInBatch h f b = Inr (h1, ins) \<Longrightarrow>
   insert_members c h xs b =
     (if is_complete c (h1 f) then Inr (h1, remove1 f xs, Some f)
      else Inr (h1, xs, if ins then Some f else None))"
  by (simp add: insert_members_def)

lemma insert_members_cases:
  assumes "insert_members c h xs b = Inr (h', xs', r)"
  obtains (fresh) "find_batch h xs b = None" "h' = h" "xs' = xs @ [b]" "r = Some b"
  | (found) f ins where "find_batch h xs b = Some f"
      "mergeSignaturesInBatch h f b = Inr (h', ins)"
      "xs' = (if is_complete c (h' f) then remove1 f xs else xs)"
      "r = (if is_complete c (h' f) \<or> ins then Some f else None)"
  using assms
  by (auto simp: insert_members_def split: option.splits sum.splits if_splits)

lemma insert_members_swap:
  assumes k: "hash_of h b1 \<noteq> hash_of h b2"
    and 1: "insert_members c h xs b1 = Inr (h1, xs1, r1)"
    and 2: "insert_members c h1 xs1 b2 = Inr (h12, xs12, r2)"
  shows "\<exists>h2 xs2 xs21. insert_members c h xs b2 = Inr (h2, xs2, r2)
           \<and> insert_members c h2 xs2 b1 = Inr (h12, xs21, r1)
           \<and> set xs21 = set xs12"
proof -
  have g1: "store_grows h h1" using 1 by (rule insert_members_grows)
  have g12: "store_grows h1 h12" using 2 by (rule insert_members_grows)
  have hash1: "hash_of h1 a = hash_of h a" for a using g1 by (rule store_grows_hash)
  from 1 show ?thesis
  proof (cases rule: insert_members_cases)
    case fresh
    note f1 = fresh
    have fb2: "find_batch h xs1 b2 = find_batch h xs b2"
      using k by (simp add: f1 find_batch_append hash_of_def split: option.splits)
    from 2 show ?thesis
    proof (cases rule: insert_members_cases)
      case fresh
      with f1 fb2 have n2: "find_batch h xs b2 = None" by simp
      have "find_batch h (xs @ [b2]) b1 = None"
        using f1 k by (simp add: find_batch_append hash_of_def)
      with n2 f1 fresh show ?thesis
        by (auto simp: insert_members_fresh)
    next
      case (found f2 ins2)
      with f1 fb2 have s2: "find_batch h xs b2 = Some f2" by simp
      then have f2: "f2 \<in> set xs" "hash_of h f2 = hash_of h b2"
        by (auto dest: find_batch_Some)
      let ?xs2 = "if is_complete c (h12 f2) then remove1 f2 xs else xs"
      have a: "insert_members c h xs b2 = Inr (h12, ?xs2, r2)"
        using s2 found f1 by (simp add: insert_members_found)
      have g: "store_grows h h12" using g12 f1 by simp
      have "find_batch h ?xs2 b1 = None"
        using f1 k f2 by (simp add: find_batch_remove1_other)
      then have "find_batch h12 ?xs2 b1 = None"
        using g by (simp add: find_batch_store_grows)
      then have b: "insert_members c h12 ?xs2 b1 = Inr (h12, ?xs2 @ [b1], r1)"
        using f1 by (simp add: insert_members_fresh)
      have "set (?xs2 @ [b1]) = set xs12"
        using found f1 f2 by (simp add: remove1_append)
      with a b show ?thesis by blast
    qed
  next
    case (found f1 ins1)
    note F1 = found
    from F1 have f1: "f1 \<in> set xs" "hash_of h f1 = hash_of h b1"
      by (auto dest: find_batch_Some)
    have fb2: "find_batch h1 xs1 b2 = find_batch h xs b2"
      using k f1 F1 g1 by (simp add: find_batch_store_grows find_batch_remove1_other)
    from 2 show ?thesis
    proof (cases rule: insert_members_cases)
      case fresh
      with fb2 have n2: "find_batch h xs b2 = None" by simp
      then have a: "insert_members c h xs b2 = Inr (h, xs @ [b2], r2)"
        using fresh by (simp add: insert_members_fresh)
      have "find_batch h (xs @ [b2]) b1 = Some f1"
        using F1 by (simp add: find_batch_append)
      then have b: "insert_members c h (xs @ [b2]) b1 =
          Inr (h1, (if is_complete c (h1 f1) then remove1 f1 (xs @ [b2]) else xs @ [b2]), r1)"
        using F1 by (simp add: insert_members_found)
      have "set (if is_complete c (h1 f1) then remove1 f1 (xs @ [b2]) else xs @ [b2]) = set xs12"
        using fresh F1 f1 by (simp add: remove1_append)
      with a b fresh show ?thesis by blast
    next
      case (found f2 ins2)
      with fb2 have s2: "find_batch h xs b2 = Some f2" by simp
      then have f2: "f2 \<in> set xs" "hash_of h f2 = hash_of h b2"
        by (auto dest: find_batch_Some)
      have ne: "f1 \<noteq> f2" "f1 \<noteq> b2" "f2 \<noteq> b1"
        using k f1 f2 by auto
      from mergeSignaturesInBatch_swap [OF ne F1(2) found(2)] obtain h2 where
        m2: "mergeSignaturesInBatch h f2 b2 = Inr (h2, ins2)"
        and m1: "mergeSignaturesInBatch h2 f1 b1 = Inr (h12, ins1)"
        and e2: "h2 f2 = h12 f2" and e1: "h12 f1 = h1 f1"
        by blast
      let ?xs2 = "if is_complete c (h12 f2) then remove1 f2 xs else xs"
      let ?xs21 = "if is_complete c (h1 f1) then remove1 f1 ?xs2 else ?xs2"
      have a: "insert_members c h xs b2 = Inr (h2, ?xs2, r2)"
        using s2 m2 e2 found by (simp add: insert_members_found)
      have g2: "store_grows h h2" using m2 by (rule mergeSignaturesInBatch_grows)
      have "find_batch h ?xs2 b1 = Some f1"
        using F1 k f2 by (simp add: find_batch_remove1_other)
      then have "find_batch h2 ?xs2 b1 = Some f1"
        using g2 by (simp add: find_batch_store_grows)
      then have b: "insert_members c h2 ?xs2 b1 = Inr (h12, ?xs21, r1)"
        using m1 e1 F1 by (simp add: insert_members_found)
      have "set ?xs21 = set xs12"
        using found F1 e1 by (simp add: remove1_commute)
      with a b show ?thesis by blast
    qed
  qed
qed

lemma insert_members_each_same_members:
  "insert_members_each c h xs bs = Inr (h', xs', rs) \<Longrightarrow>
   unique_hashes h xs \<Longrightarrow> unique_hashes h ys \<Longrightarrow> set ys = set xs \<Longrightarrow>
   \<exists>ys'. insert_members_each c h ys bs = Inr (h', ys', rs) \<and> set ys' = set xs'"
proof (induction bs arbitrary: h xs ys rs)
  case Nil
  then show ?case by simp
next
  case (Cons b bs)
  from Cons.prems(1) obtain h1 xs1 r rs1 where
    one: "insert_members c h xs b = Inr (h1, xs1, r)"
    and rest: "insert_members_each c h1 xs1 bs = Inr (h', xs', rs1)"
    and rs: "rs = (case r of None \<Rightarrow> [] | Some a \<Rightarrow> [a]) @ rs1"
    by (auto split: sum.splits)
  from insert_members_same_members [OF one Cons.prems(2,3,4)] obtain ys1 where
    one': "insert_members c h ys b = Inr (h1, ys1, r)" and s1: "set ys1 = set xs1"
    by blast
  have "unique_hashes h1 xs1" "unique_hashes h1 ys1"
    using one one' Cons.prems(2,3) by (auto dest: insert_members_unique)
  from Cons.IH [OF rest this s1] obtain ys' where
    "insert_members_each c h1 ys1 bs = Inr (h', ys', rs1)" "set ys' = set xs'"
    by blast
  with one' rs show ?case by simp
qed

lemma insert_members_each_to_front:
  "insert_members_each c h xs (pre @ b # post) = Inr (h', xs', rs) \<Longrightarrow>
   hash_of h b \<notin> hashes h pre \<Longrightarrow> unique_hashes h xs \<Longrightarrow>
   \<exists>ys' rs'. insert_members_each c h xs (b # pre @ post) = Inr (h', ys', rs')
      \<and> set ys' = set xs' \<and> set rs' = set rs"
proof (induction pre arbitrary: h xs rs)
  case Nil
  then show ?case by auto
next
  case (Cons p pre)
  from Cons.prems(1) obtain h1 xs1 rp rs1 where
    p: "insert_members c h xs p = Inr (h1, xs1, rp)"
    and rest: "insert_members_each c h1 xs1 (pre @ b # post) = Inr (h', xs', rs1)"
    and rs: "rs = (case rp of None \<Rightarrow> [] | Some a \<Rightarrow> [a]) @ rs1"
    by (auto split: sum.splits)
  have g1: "store_grows h h1" using p by (rule insert_members_grows)
  have u1: "unique_hashes h1 xs1" using p Cons.prems(3) by (rule insert_members_unique)
  have nb: "hash_of h1 b \<notin> hashes h1 pre"
    using Cons.prems(2) g1 by (simp add: hashes_def store_grows_hash)
  from Cons.IH [OF rest nb u1] obtain ys1 rs2 where
    front: "insert_members_each c h1 xs1 (b # pre @ post) = Inr (h', ys1, rs2)"
    and sy: "set ys1 = set xs'" and sr: "set rs2 = set rs1"
    by blast
  from front obtain h1b xs1b rb rs3 where
    b: "insert_members c h1 xs1 b = Inr (h1b, xs1b, rb)"
    and tail: "insert_members_each c h1b xs1b (pre @ post) = Inr (h', ys1, rs3)"
    and rs2: "rs2 = (case rb of None \<Rightarrow> [] | Some a \<Rightarrow> [a]) @ rs3"
    by (auto split: sum.splits)
  have k: "hash_of h p \<noteq> hash_of h b"
    using Cons.prems(2) by (auto simp: hashes_def)
  from insert_members_swap [OF k p b] obtain h2 xs2 xs21 where
    b': "insert_members c h xs b = Inr (h2, xs2, rb)"
    and p': "insert_members c h2 xs2 p = Inr (h1b, xs21, rp)"
    and s21: "set xs21 = set xs1b"
    by blast
  have u1b: "unique_hashes h1b xs1b" using b u1 by (rule insert_members_unique)
  have u2: "unique_hashes h2 xs2" using b' Cons.prems(3) by (rule insert_members_unique)
  have u21: "unique_hashes h1b xs21" using p' u2 by (rule insert_members_unique)
  from insert_members_each_same_members [OF tail u1b u21 s21] obtain zs where
    tail': "insert_members_each c h1b xs21 (pre @ post) = Inr (h', zs, rs3)"
    and sz: "set zs = set ys1"
    by blast
  have "insert_members_each c h xs (b # (p # pre) @ post) =
          Inr (h', zs, (case rb of None \<Rightarrow> [] | Some a \<Rightarrow> [a])
                        @ (case rp of None \<Rightarrow> [] | Some a \<Rightarrow> [a]) @ rs3)"
    using b' p' tail' by simp
  moreover have "set ((case rb of None \<Rightarrow> [] | Some a \<Rightarrow> [a])
                        @ (case rp of None \<Rightarrow> [] | Some a \<Rightarrow> [a]) @ rs3) = set rs"
    using rs rs2 sr by auto
  ultimately show ?case using sz sy by blast
qed

lemma insert_members_each_permuted:
  "insert_members_each c h xs bs = Inr (h', xs', rs) \<Longrightarrow>
   unique_hashes h bs \<Longrightarrow> set bs' = set bs \<Longrightarrow> distinct bs' \<Longrightarrow> unique_hashes h xs \<Longrightarrow>
   \<exists>ys' rs'. insert_members_each c h xs bs' = Inr (h', ys', rs')
      \<and> set ys' = set xs' \<and> set rs' = set rs"
proof (induction bs' arbitrary: h xs bs rs xs')
  case Nil
  then show ?case by auto
next
  case (Cons b bs')
  from Cons.prems(3) have "b \<in> set bs" by auto
  then obtain pre post where bs: "bs = pre @ b # post"
    by (auto dest: split_list)
  have nb: "hash_of h b \<notin> hashes h pre"
    using Cons.prems(2) by (auto simp: bs unique_hashes_def hashes_def)
  from insert_members_each_to_front [OF Cons.prems(1) [unfolded bs] nb Cons.prems(5)]
  obtain ys1 rs1 where
    front: "insert_members_each c h xs (b # pre @ post) = Inr (h', ys1, rs1)"
    and sy: "set ys1 = set xs'" and sr: "set rs1 = set rs"
    by blast
  from front obtain h1 xs1 rb rs2 where
    b: "insert_members c h xs b = Inr (h1, xs1, rb)"
    and tail: "insert_members_each c h1 xs1 (pre @ post) = Inr (h', ys1, rs2)"
    and rs1: "rs1 = (case rb of None \<Rightarrow> [] | Some a \<Rightarrow> [a]) @ rs2"
    by (auto split: sum.splits)
  have g1: "store_grows h h1" using b by (rule insert_members_grows)
  have dbs: "distinct bs" using Cons.prems(2) by (rule unique_hashes_distinct)
  have "unique_hashes h (pre @ post)"
    using Cons.prems(2) by (simp add: bs unique_hashes_def)
  then have u: "unique_hashes h1 (pre @ post)"
    using g1 by (simp add: unique_hashes_store_grows)
  have s: "set bs' = set (pre @ post)"
    using Cons.prems(3,4) dbs by (auto simp: bs)
  have d: "distinct bs'" using Cons.prems(4) by simp
  have u1: "unique_hashes h1 xs1" using b Cons.prems(5) by (rule insert_members_unique)
  from Cons.IH [OF tail u s d u1] obtain zs rs3 where
    "insert_members_each c h1 xs1 bs' = Inr (h', zs, rs3)"
    "set zs = set ys1" "set rs3 = set rs2"
    by blast
  with b sy sr rs1 show ?case by auto
qed

lemma insert_members_insertOne:
  assumes im: "insert_members (completer s) h (internal_state s) b = Inr (h', xs', r)"
    and fresh: "hash_of h b \<notin> hashes h (internal_state out)"
  shows "\<exists>s' out' cpl. insertOne h s out b = Inr (h', s', out', cpl) \<and> internal_state s' = xs'"
proof (cases "find_batch h (internal_state s) b")
  case None
  with im show ?thesis
    by (auto simp: insertOne_unfold insert_members_def rawInsert_def set_insert_fresh)
next
  case (Some f)
  then have fb: "hash_of h f = hash_of h b" by (simp add: find_batch_Some)
  from im Some obtain ins where m: "mergeSignaturesInBatch h f b = Inr (h', ins)"
    by (auto simp: insert_members_def split: sum.splits if_splits)
  have "hash_of h' a = hash_of h a" for a
    using m by (auto dest!: mergeSignaturesInBatch_grows store_grows_hash)
  with fresh fb have "hash_of h' f \<notin> hash_of h' ` set (internal_state out)"
    by (simp add: hashes_def)
  then have "find_batch h' (internal_state out) f = None"
    by (simp add: find_batch_None)
  then have "operator_plus_batch h' out f =
            Inr (h', rawInsert h' out f, rawInsert h' (empty_state (completer out)) f, False)"
    by (simp add: operator_plus_batch_unfold)
  with im Some m show ?thesis
    by (auto simp: insertOne_unfold insert_members_def split: if_splits)
qed

lemma insert_members_each_insert_each:
  "insert_members_each (completer s) h (internal_state s) bs = Inr (h', xs', rs) \<Longrightarrow>
   unique_hashes h bs \<Longrightarrow> hashes h (internal_state out) \<inter> hashes h bs = {} \<Longrightarrow>
   \<exists>s' out'. insert_each h s out bs = Inr (h', s', out')"
proof (induction bs arbitrary: h s out rs)
  case Nil
  then show ?case by simp
next
  case (Cons b bs)
  from Cons.prems(1) obtain h1 xs1 r rs1 where
    im: "insert_members (completer s) h (internal_state s) b = Inr (h1, xs1, r)"
    and rest: "insert_members_each (completer s) h1 xs1 bs = Inr (h', xs', rs1)"
    by (auto split: sum.splits)
  have fresh: "hash_of h b \<notin> hashes h (internal_state out)"
    using Cons.prems(3) by (auto simp: hashes_def)
  from insert_members_insertOne [OF im fresh] obtain s1 o1 cpl where
    one: "insertOne h s out b = Inr (h1, s1, o1, cpl)" and xs1: "internal_state s1 = xs1"
    by blast
  from insertOne_insert_members [OF one fresh] obtain r' where
    cs: "completer s1 = completer s"
    and im': "insert_members (completer s) h (internal_state s) b = Inr (h1, internal_state s1, r')"
    and o1: "internal_state o1 = internal_state out @ (case r' of None \<Rightarrow> [] | Some a \<Rightarrow> [a])"
    by blast
  have hash1: "hash_of h1 a = hash_of h a" for a
    using one by (auto dest!: insertOne_grows store_grows_hash)
  then have hs: "hashes h1 ys = hashes h ys" for ys
    by (simp add: hashes_def)
  have u1: "unique_hashes h1 bs"
    using Cons.prems(2) unique_hashes_cong [of h1 h bs, OF hash1]
    by (simp add: unique_hashes_def)
  have nb: "hash_of h b \<notin> hashes h bs"
    using Cons.prems(2) by (simp add: unique_hashes_def hashes_def)
  have "hashes h (case r' of None \<Rightarrow> [] | Some a \<Rightarrow> [a]) \<subseteq> {hash_of h b}"
    using im' by (cases r') (auto simp: hashes_def dest: insert_members_report)
  with nb Cons.prems(3) have d1: "hashes h1 (internal_state o1) \<inter> hashes h1 bs = {}"
    unfolding hs o1 by (auto simp: hashes_def)
  from rest cs xs1 have "insert_members_each (completer s1) h1 (internal_state s1) bs = Inr (h', xs', rs1)"
    by simp
  from Cons.IH [OF this u1 d1] one show ?case by auto
qed

lemma insert_members_each_unique:
  "insert_members_each c h xs bs = Inr (h', xs', rs) \<Longrightarrow> unique_hashes h xs \<Longrightarrow>
   unique_hashes h' xs'"
proof (induction bs arbitrary: h xs rs)
  case Nil
  then show ?case by simp
next
  case (Cons b bs)
  from Cons.prems(1) obtain h1 xs1 r rs1 where
    "insert_members c h xs b = Inr (h1, xs1, r)"
    "insert_members_each c h1 xs1 bs = Inr (h', xs', rs1)"
    by (auto split: sum.splits)
  with Cons.IH Cons.prems(2) show ?case
    by (blast dest: insert_members_unique)
qed

lemma insert_members_each_grows:
  "insert_members_each c h xs bs = Inr (h', xs', rs) \<Longrightarrow> store_grows h h'"
proof (induction bs arbitrary: h xs rs)
  case Nil
  then show ?case by (simp add: store_grows_refl)
next
  case (Cons b bs)
  from Cons.prems(1) obtain h1 xs1 r rs1 where
    "insert_members c h xs b = Inr (h1, xs1, r)"
    "insert_members_each c h1 xs1 bs = Inr (h', xs', rs1)"
    by (auto split: sum.splits)
  with Cons.IH show ?case
    by (blast dest: insert_members_grows intro: store_grows_trans)
qed

lemma insert_members_each_reports:
  "insert_members_each c h xs bs = Inr (h', xs', rs) \<Longrightarrow> unique_hashes h bs \<Longrightarrow>
   unique_hashes h rs \<and> hashes h rs \<subseteq> hashes h bs"
proof (induction bs arbitrary: h xs rs)
  case Nil
  then show ?case by (simp add: unique_hashes_def hashes_def)
next
  case (Cons b bs)
  from Cons.prems(1) obtain h1 xs1 r rs1 where
    one: "insert_members c h xs b = Inr (h1, xs1, r)"
    and rest: "insert_members_each c h1 xs1 bs = Inr (h', xs', rs1)"
    and rs: "rs = (case r of None \<Rightarrow> [] | Some a \<Rightarrow> [a]) @ rs1"
    by (auto split: sum.splits)
  have g: "store_grows h h1" using one by (rule insert_members_grows)
  have "unique_hashes h bs"
    using Cons.prems(2) by (simp add: unique_hashes_def)
  then have "unique_hashes h1 bs"
    using g by (simp add: unique_hashes_store_grows)
  from Cons.IH [OF rest this] g have ih: "unique_hashes h rs1" "hashes h rs1 \<subseteq> hashes h bs"
    by (simp_all add: unique_hashes_store_grows hashes_def store_grows_hash)
  have nb: "hash_of h b \<notin> hashes h bs"
    using Cons.prems(2) by (simp add: unique_hashes_def hashes_def)
  show ?case
  proof (cases r)
    case None
    with rs ih show ?thesis by (auto simp: hashes_def)
  next
    case (Some a)
    with one have "hash_of h a = hash_of h b" by (auto dest: insert_members_report)
    with Some rs ih nb show ?thesis
      by (auto simp: hashes_def unique_hashes_def)
  qed
qed

lemma run_inserts_members:
  "run (map Insert bs) (h, s) = Inr (h', s') \<Longrightarrow>
   \<exists>rs. insert_members_each (completer s) h (internal_state s) bs = Inr (h', internal_state s', rs)"
proof (induction bs arbitrary: h s)
  case Nil
  then show ?case by simp
next
  case (Cons b bs)
  from Cons.prems obtain h1 s1 d cpl where
    one: "operator_plus_batch h s b = Inr (h1, s1, d, cpl)"
    and rest: "run (map Insert bs) (h1, s1) = Inr (h', s')"
    by (auto split: sum.splits)
  from operator_plus_batch_insert_members [OF one] obtain r where
    "insert_members (completer s) h (internal_state s) b = Inr (h1, internal_state s1, r)"
    "completer s1 = completer s"
    by blast
  with Cons.IH [OF rest] show ?case by auto
qed

lemma members_run_inserts:
  "insert_members_each (completer s) h (internal_state s) bs = Inr (h', xs', rs) \<Longrightarrow>
   \<exists>s'. run (map Insert bs) (h, s) = Inr (h', s') \<and> internal_state s' = xs'"
proof (induction bs arbitrary: h s rs)
  case Nil
  then show ?case by simp
next
  case (Cons b bs)
  from Cons.prems obtain h1 xs1 r rs1 where
    im: "insert_members (completer s) h (internal_state s) b = Inr (h1, xs1, r)"
    and rest: "insert_members_each (completer s) h1 xs1 bs = Inr (h', xs', rs1)"
    by (auto split: sum.splits)
  have "hash_of h b \<notin> hashes h (internal_state (empty_state (completer s)))"
    by (simp add: hashes_def empty_state_def)
  from insert_members_insertOne [OF im this] obtain s1 d cpl where
    one: "operator_plus_batch h s b = Inr (h1, s1, d, cpl)" and xs1: "internal_state s1 = xs1"
    by (auto simp: operator_plus_batch_def)
  from operator_plus_batch_insert_members [OF one] have "completer s1 = completer s"
    by blast
  with rest xs1 have "insert_members_each (completer s1) h1 (internal_state s1) bs = Inr (h', xs', rs1)"
    by simp
  from Cons.IH [OF this] one show ?case by auto
qed

section \<open>Order of insertion\<close>

text \<open>
  Batches of pairwise distinct reduced hashes. Take a state whose members have pairwise
  distinct reduced hashes, and batches \<open>bs\<close> with pairwise distinct reduced hashes; let \<open>bs'\<close>
  be the same batches in another order. If inserting \<open>bs\<close> one after the other succeeds, so
  does inserting \<open>bs'\<close>, with the same store and the same sequence \<open>getBatches\<close>. Likewise
  \<^verbatim>\<open>operator+=\<close> with a state whose members are \<open>bs\<close> gives the same store, the same members
  and the same reported batches whatever the order in which the members are folded in.
\<close>

lemma insertion_order_distinct_hashes:
  assumes uniq: "unique_hashes h (internal_state A)"
    and bs: "unique_hashes h bs"
    and perm: "set bs' = set bs" "distinct bs'"
  shows "(\<forall>h1 A1. run (map Insert bs) (h, A) = Inr (h1, A1) \<longrightarrow>
            (\<exists>A2. run (map Insert bs') (h, A) = Inr (h1, A2)
                 \<and> getBatches h1 A2 = getBatches h1 A1))
         \<and> (\<forall>rhs rhs' h1 A1 R1.
              internal_state rhs = bs \<longrightarrow> internal_state rhs' = bs' \<longrightarrow>
              operator_plus_state h A rhs = Inr (h1, A1, R1) \<longrightarrow>
              (\<exists>A2 R2. operator_plus_state h A rhs' = Inr (h1, A2, R2)
                 \<and> getBatches h1 A2 = getBatches h1 A1
                 \<and> getBatches h1 R2 = getBatches h1 R1))"
proof (intro conjI allI impI)
  fix h1 A1
  assume r: "run (map Insert bs) (h, A) = Inr (h1, A1)"
  from run_inserts_members [OF r] obtain rs where
    m: "insert_members_each (completer A) h (internal_state A) bs = Inr (h1, internal_state A1, rs)"
    by blast
  from insert_members_each_permuted [OF m bs perm uniq] obtain ys rs' where
    m': "insert_members_each (completer A) h (internal_state A) bs' = Inr (h1, ys, rs')"
    and s: "set ys = set (internal_state A1)"
    by blast
  from members_run_inserts [OF m'] obtain A2 where
    r': "run (map Insert bs') (h, A) = Inr (h1, A2)" and A2: "internal_state A2 = ys"
    by blast
  have u1: "unique_hashes h1 (internal_state A1)"
    using m uniq by (rule insert_members_each_unique)
  have "unique_hashes h1 ys"
    using m' uniq by (rule insert_members_each_unique)
  then have "distinct (internal_state A2)"
    using A2 by (simp add: unique_hashes_distinct)
  with u1 s A2 have "getBatches h1 A2 = getBatches h1 A1"
    by (intro getBatches_same_members) simp_all
  with r' show "\<exists>A2. run (map Insert bs') (h, A) = Inr (h1, A2)
                 \<and> getBatches h1 A2 = getBatches h1 A1"
    by blast
next
  fix rhs rhs' :: mst_state and h1 A1 R1
  assume rhs: "internal_state rhs = bs" and rhs': "internal_state rhs' = bs'"
    and r: "operator_plus_state h A rhs = Inr (h1, A1, R1)"
  let ?e = "empty_state (completer A)"
  have e: "hashes h (internal_state ?e) \<inter> hashes h bs = {}"
    "hashes h (internal_state ?e) \<inter> hashes h bs' = {}"
    by (simp_all add: hashes_def empty_state_def)
  have bs': "unique_hashes h bs'"
    using bs perm by (rule unique_hashes_same_set)
  from r rhs have ie: "insert_each h A ?e bs = Inr (h1, A1, R1)"
    by (simp add: operator_plus_state_def)
  from insert_each_insert_members [OF ie bs e(1)] obtain rs where
    m: "insert_members_each (completer A) h (internal_state A) bs = Inr (h1, internal_state A1, rs)"
    and R1: "internal_state R1 = rs"
    by (auto simp: empty_state_def)
  from insert_members_each_permuted [OF m bs perm uniq] obtain ys rs' where
    m': "insert_members_each (completer A) h (internal_state A) bs' = Inr (h1, ys, rs')"
    and s: "set ys = set (internal_state A1)" and sr: "set rs' = set rs"
    by blast
  from insert_members_each_insert_each [OF m' bs' e(2)] obtain A2 R2 where
    ie': "insert_each h A ?e bs' = Inr (h1, A2, R2)"
    by blast
  from insert_each_insert_members [OF ie' bs' e(2)] m' have
    A2: "internal_state A2 = ys" and R2: "internal_state R2 = rs'"
    by (auto simp: empty_state_def)
  have g: "store_grows h h1" using m by (rule insert_members_each_grows)
  have u1: "unique_hashes h1 (internal_state A1)"
    using m uniq by (rule insert_members_each_unique)
  have "unique_hashes h1 ys"
    using m' uniq by (rule insert_members_each_unique)
  then have "distinct (internal_state A2)"
    using A2 by (simp add: unique_hashes_distinct)
  with u1 s A2 have gA: "getBatches h1 A2 = getBatches h1 A1"
    by (intro getBatches_same_members) simp_all
  have "unique_hashes h rs" "unique_hashes h rs'"
    using insert_members_each_reports [OF m bs] insert_members_each_reports [OF m' bs']
    by simp_all
  with g have "unique_hashes h1 (internal_state R1)" "distinct (internal_state R2)"
    using R1 R2 by (simp_all add: unique_hashes_store_grows unique_hashes_distinct)
  with sr R1 R2 have gR: "getBatches h1 R2 = getBatches h1 R1"
    by (intro getBatches_same_members) simp_all
  from ie' rhs' gA gR
  show "\<exists>A2 R2. operator_plus_state h A rhs' = Inr (h1, A2, R2)
                 \<and> getBatches h1 A2 = getBatches h1 A1
                 \<and> getBatches h1 R2 = getBatches h1 R1"
    by (auto simp: operator_plus_state_def)
qed

lemma insertOne_completer:
  "insertOne h s out b = Inr (h', s', out', c) \<Longrightarrow> completer s' = completer s"
  by (auto simp: insertOne_unfold rawInsert_def split: option.splits sum.splits if_splits)

lemma insertOne_unique:
  assumes res: "insertOne h s out b = Inr (h', s', out', c)"
    and uniq: "unique_hashes h (internal_state s)"
  shows "unique_hashes h' (internal_state s')"
proof -
  have g: "store_grows h h'" using res by (rule insertOne_grows)
  have "unique_hashes h (internal_state s')"
  proof (cases "find_batch h (internal_state s) b")
    case None
    then have "hash_of h b \<notin> hash_of h ` set (internal_state s)" by (simp add: find_batch_None)
    moreover from None res have "internal_state s' = internal_state s @ [b]"
      by (auto simp: insertOne_unfold rawInsert_def set_insert_fresh)
    ultimately show ?thesis using uniq by (simp add: unique_hashes_def)
  next
    case (Some f)
    with res have "internal_state s' = remove1 f (internal_state s) \<or> internal_state s' = internal_state s"
      by (auto simp: insertOne_unfold split: sum.splits if_splits)
    with uniq show ?thesis by (auto simp: unique_hashes_remove1)
  qed
  with g show ?thesis by (simp add: unique_hashes_store_grows)
qed

lemma insertOne_members_incomplete:
  assumes "insertOne h s out b = Inr (h', s', out', c)"
    and "members_incomplete h s"
    and "find_batch h (internal_state s) b = None \<longrightarrow> \<not> is_complete (completer s) (h b)"
  shows "members_incomplete h' s'"
  using insertOne_incomplete_step [OF assms(1) _ _ assms(3)] assms(1,2)
  by (auto simp: members_incomplete_def dest: insertOne_unique)

lemma insert_each_members_incomplete:
  "insert_each h s out bs = Inr (h', s', out') \<Longrightarrow> members_incomplete h s \<Longrightarrow>
   arrivals_each h s out bs \<Longrightarrow> members_incomplete h' s' \<and> completer s' = completer s"
proof (induction bs arbitrary: h s out)
  case Nil
  then show ?case by simp
next
  case (Cons b bs)
  from Cons.prems(1) obtain h1 s1 o1 c1 where
    one: "insertOne h s out b = Inr (h1, s1, o1, c1)"
    and rest: "insert_each h1 s1 o1 bs = Inr (h', s', out')"
    by (auto split: sum.splits)
  from Cons.prems(3) one have
    arr: "find_batch h (internal_state s) b = None \<longrightarrow> \<not> is_complete (completer s) (h b)"
    and arrs: "arrivals_each h1 s1 o1 bs"
    by simp_all
  from insertOne_members_incomplete [OF one Cons.prems(2) arr] have "members_incomplete h1 s1" .
  from Cons.IH [OF rest this arrs] insertOne_completer [OF one] show ?case by simp
qed

lemma eraseByTime_loop_members_incomplete:
  "eraseByTime_loop t h s out = Inr (h', s', out') \<Longrightarrow> members_incomplete h s \<Longrightarrow>
   members_incomplete h' s' \<and> completer s' = completer s"
proof (induction t h s out rule: eraseByTime_loop.induct)
  case (1 t h self out)
  note res = "1.prems"(1) and inv = "1.prems"(2)
  show ?case
  proof (cases "index_top (completer self) h (index self)")
    case None
    with res inv show ?thesis by (simp add: eraseByTime_loop.simps)
  next
    case (Some tp)
    show ?thesis
    proof (cases "is_expired (completer self) (h tp) t")
      case False
      with Some res inv show ?thesis by (simp add: eraseByTime_loop.simps)
    next
      case True
      let ?s1 = "\<lambda>iter. self\<lparr>internal_state := remove1 iter (internal_state self),
                             index := remove1 tp (index self)\<rparr>"
      from True Some res obtain iter h1 o1 d1 c1 where
        f: "find_batch h (internal_state self) tp = Some iter"
        and p: "operator_plus_batch h out iter = Inr (h1, o1, d1, c1)"
        and r: "eraseByTime_loop t h1 (?s1 iter) o1 = Inr (h', s', out')"
        by (auto simp: eraseByTime_loop.simps [of t h self] split: option.splits sum.splits)
      from f have it: "iter \<in> set (internal_state self)" by (simp add: find_batch_Some)
      from inv have uniq: "unique_hashes h (internal_state self)"
        and inc: "\<forall>a\<in>set (internal_state self). \<not> is_complete (completer self) (h a)"
        by (simp_all add: members_incomplete_def)
      have g: "store_grows h h1" using p by (rule operator_plus_batch_grows)
      have u1: "unique_hashes h1 (remove1 iter (internal_state self))"
        using uniq g by (simp add: unique_hashes_store_grows unique_hashes_remove1)
      have "\<not> is_complete (completer self) (h1 a)"
        if a: "a \<in> set (remove1 iter (internal_state self))" for a
      proof -
        from unique_hashes_remove1_absent [OF uniq it] a
        have "hash_of h a \<noteq> hash_of h iter" by (auto simp: image_iff)
        from operator_plus_batch_hash_frame [OF p this] have "h1 a = h a" .
        moreover from a have "a \<in> set (internal_state self)"
          using set_remove1_subset [of iter "internal_state self"] by auto
        ultimately show ?thesis using inc by simp
      qed
      with u1 have inv1: "members_incomplete h1 (?s1 iter)"
        by (simp add: members_incomplete_def)
      from True have ne: "\<not> \<not> is_expired (completer self) (h tp) t" by simp
      from "1.IH" [OF Some ne f p refl refl refl r inv1] show ?thesis by simp
    qed
  qed
qed

lemma apply_operation_members_incomplete:
  assumes "apply_operation x (h, s) = Inr (h', s')" and "members_incomplete h s"
    and "arrival_incomplete x (h, s)"
  shows "members_incomplete h' s'"
proof (cases x)
  case (Insert b)
  with assms obtain d c where "insertOne h s (empty_state (completer s)) b = Inr (h', s', d, c)"
    by (auto simp: operator_plus_batch_def split: sum.splits)
  from insertOne_members_incomplete [OF this assms(2)] assms(3) Insert show ?thesis by simp
next
  case (Merge rhs)
  with assms obtain r where
    "insert_each h s (empty_state (completer s)) (internal_state rhs) = Inr (h', s', r)"
    by (auto simp: operator_plus_state_def split: sum.splits)
  from insert_each_members_incomplete [OF this assms(2)] assms(3) Merge show ?thesis by simp
next
  case (EraseByTime t)
  with assms obtain r where
    "eraseByTime_loop t h s (empty_state (completer s)) = Inr (h', s', r)"
    by (auto simp: eraseByTime_def split: sum.splits)
  from eraseByTime_loop_members_incomplete [OF this assms(2)] show ?thesis by simp
qed

lemma run_members_incomplete:
  "run xs (h, s) = Inr (h', s') \<Longrightarrow> members_incomplete h s \<Longrightarrow> arrivals_incomplete xs (h, s) \<Longrightarrow>
   members_incomplete h' s'"
proof (induction xs arbitrary: h s)
  case Nil
  then show ?case by simp
next
  case (Cons x xs)
  from Cons.prems(1) obtain h1 s1 where 1: "apply_operation x (h, s) = Inr (h1, s1)"
    and 2: "run xs (h1, s1) = Inr (h', s')"
    by (auto split: sum.splits)
  from Cons.prems(3) 1 have a: "arrival_incomplete x (h, s)" and as: "arrivals_incomplete xs (h1, s1)"
    by simp_all
  from apply_operation_members_incomplete [OF 1 Cons.prems(2) a] have "members_incomplete h1 s1" .
  from Cons.IH [OF 2 this as] show ?case .
qed

section \<open>Completion and membership\<close>

lemma operator_plus_batch_completed:
  assumes "operator_plus_batch h s b = Inr (h1, s1, d, True)"
  shows "\<exists>f ins. find_batch h (internal_state s) b = Some f
           \<and> mergeSignaturesInBatch h f b = Inr (h1, ins)
           \<and> is_complete (completer s) (h1 f)
           \<and> s1 = s\<lparr>internal_state := remove1 f (internal_state s)\<rparr>
           \<and> d = \<lparr>completer = completer s, internal_state = [f], index = [f]\<rparr>"
  using assms
  by (auto simp: operator_plus_batch_unfold rawInsert_empty
      split: option.splits sum.splits if_splits)

lemma members_incomplete_empty: "members_incomplete h (empty_state c)"
  by (simp add: members_incomplete_def empty_state_def unique_hashes_def)

text \<open>
  Claim C3, as stated, fails in two ways. A batch that is complete when it is inserted
  under a reduced hash not yet present is stored as a member, with the status false. And
  the diff state an insertion returns holds the very batch object the state holds: after
  \<open>b\<close> signed by \<open>pk1\<close> is inserted into the empty state, inserting \<open>b\<close> signed by \<open>pk2\<close> into
  the returned diff state completes that object, which is still the member of the first
  state, although neither arrival was complete.
\<close>

theorem complete_member_two_ways:
  "operator_plus_batch arrival_store (empty_state (ttl_completer 10)) 0 =
     Inr (arrival_store, S1_state, S1_state, False)
   \<and> getBatches arrival_store S1_state = [0]
   \<and> is_complete (completer S1_state) (arrival_store 0)
   \<and> operator_plus_batch S1_store (empty_state (ttl_completer 10)) 0 =
     Inr (S1_store, S1_state, S1_state, False)
   \<and> \<not> is_complete (completer S1_state) (S1_store 0)
   \<and> \<not> is_complete (completer S1_state) (S1_store 1)
   \<and> operator_plus_batch S1_store S1_state 1 =
       Inr (S1_merged, S1_state\<lparr>internal_state := []\<rparr>, S1_state, True)
   \<and> getBatches S1_merged S1_state = [0]
   \<and> is_complete (completer S1_state) (S1_merged 0)"
proof -
  have "operator_plus_batch arrival_store (empty_state (ttl_completer 10)) 0 =
     Inr (arrival_store, S1_state, S1_state, False)
   \<and> getBatches arrival_store S1_state = [0]
   \<and> is_complete (completer S1_state) (arrival_store 0)"
    by (simp add: operator_plus_batch_unfold arrival_store_def S1_state_def scenario_defs)
  moreover have "\<not> is_complete (completer S1_state) (S1_store 0)"
    "\<not> is_complete (completer S1_state) (S1_store 1)"
    "getBatches S1_merged S1_state = [0]"
    "is_complete (completer S1_state) (S1_merged 0)"
    by (simp_all add: S1_store_def S1_merged_def S1_state_def scenario_defs)
  ultimately show ?thesis
    using S1_first_insert S1_second_insert by (intro conjI) blast+
qed

text \<open>
  Claim C3, amended. A batch inserted while no member has its reduced hash is stored as a
  member and reported in the diff with the status false, whether it is complete or not.
  Take a state whose members have pairwise distinct reduced hashes and are not complete
  (the empty state is one), and apply to it any sequence of insertions, merges and expiries
  in which every batch that arrives while no member has its reduced hash is not complete at
  that moment: if the sequence returns, no member of the state is complete. An insertion
  that returns the status true leaves no member with the reduced hash of the incoming batch
  and returns a diff state that holds just the completed batch. The sequence is applied to
  the one state; operations on a state that shares its batch objects, such as a diff state
  it returned, are outside the statement.
\<close>

theorem members_stay_incomplete:
  "(find_batch h (internal_state s) b = None \<longrightarrow>
      operator_plus_batch h s b =
        Inr (h, rawInsert h s b, rawInsert h (empty_state (completer s)) b, False)
      \<and> internal_state (rawInsert h s b) = internal_state s @ [b]
      \<and> internal_state (rawInsert h (empty_state (completer s)) b) = [b])
   \<and> members_incomplete h (empty_state c)
   \<and> (members_incomplete h s \<longrightarrow> arrivals_incomplete ops (h, s) \<longrightarrow>
        run ops (h, s) = Inr (h', s') \<longrightarrow>
        unique_hashes h' (internal_state s')
        \<and> (\<forall>a\<in>set (internal_state s'). \<not> is_complete (completer s') (h' a)))
   \<and> (unique_hashes h (internal_state s) \<longrightarrow>
        operator_plus_batch h s b = Inr (h1, s1, d, True) \<longrightarrow>
        (\<forall>a\<in>set (getBatches h1 s1). reducedHash (h1 a) \<noteq> reducedHash (h1 b))
        \<and> (\<exists>f. internal_state d = [f] \<and> is_complete (completer s) (h1 f)))"
proof (intro conjI impI)
  assume "find_batch h (internal_state s) b = None"
  then show "operator_plus_batch h s b =
        Inr (h, rawInsert h s b, rawInsert h (empty_state (completer s)) b, False)"
    and "internal_state (rawInsert h s b) = internal_state s @ [b]"
    by (simp_all add: operator_plus_batch_unfold rawInsert_def set_insert_fresh)
next
  show "internal_state (rawInsert h (empty_state (completer s)) b) = [b]"
    by (simp add: rawInsert_empty)
next
  show "members_incomplete h (empty_state c)" by (rule members_incomplete_empty)
next
  assume "members_incomplete h s" "arrivals_incomplete ops (h, s)" "run ops (h, s) = Inr (h', s')"
  then have m: "members_incomplete h' s'" by (blast intro: run_members_incomplete)
  then show "unique_hashes h' (internal_state s')"
    and "\<forall>a\<in>set (internal_state s'). \<not> is_complete (completer s') (h' a)"
    by (simp_all add: members_incomplete_def)
next
  assume uniq: "unique_hashes h (internal_state s)"
    and res: "operator_plus_batch h s b = Inr (h1, s1, d, True)"
  from operator_plus_batch_completed [OF res] obtain f ins where
    found: "find_batch h (internal_state s) b = Some f"
    and merge: "mergeSignaturesInBatch h f b = Inr (h1, ins)"
    and c: "is_complete (completer s) (h1 f)"
    and s1: "s1 = s\<lparr>internal_state := remove1 f (internal_state s)\<rparr>"
    and d: "d = \<lparr>completer = completer s, internal_state = [f], index = [f]\<rparr>"
    by blast
  have hash: "hash_of h1 a = hash_of h a" for a
    using merge by (auto dest!: mergeSignaturesInBatch_grows store_grows_hash)
  have f: "f \<in> set (internal_state s)" and fb: "hash_of h f = hash_of h b"
    using found by (auto dest: find_batch_Some)
  from unique_hashes_remove1_absent [OF uniq f]
  have "\<forall>a\<in>set (remove1 f (internal_state s)). hash_of h1 a \<noteq> hash_of h1 b"
    using hash fb by (auto simp: image_iff)
  then show "\<forall>a\<in>set (getBatches h1 s1). reducedHash (h1 a) \<noteq> reducedHash (h1 b)"
    by (simp add: s1 hash_of_def)
  from c d show "\<exists>f. internal_state d = [f] \<and> is_complete (completer s) (h1 f)"
    by simp
qed

lemma evict_last_insert:
  "operator_plus_batch evict_store evict_state 2 =
     Inr (evict_merged, evict_state\<lparr>internal_state := [1]\<rparr>, S1_state, True)"
  by (simp add: operator_plus_batch_unfold evict_store_def evict_state_def evict_merged_def
      S1_state_def scenario_defs)

theorem members_stay_incomplete_witness:
  "find_batch evict_store (internal_state (empty_state (ttl_completer 10))) 0 = None
   \<and> members_incomplete evict_store (empty_state (ttl_completer 10))
   \<and> arrivals_incomplete [Insert 0, Insert 1, Insert 2] (evict_store, empty_state (ttl_completer 10))
   \<and> run [Insert 0, Insert 1, Insert 2] (evict_store, empty_state (ttl_completer 10)) =
       Inr (evict_merged, evict_state\<lparr>internal_state := [1]\<rparr>)
   \<and> \<not> is_complete (completer (evict_state\<lparr>internal_state := [1]\<rparr>)) (evict_merged 1)
   \<and> unique_hashes evict_store (internal_state evict_state)
   \<and> operator_plus_batch evict_store evict_state 2 =
       Inr (evict_merged, evict_state\<lparr>internal_state := [1]\<rparr>, S1_state, True)
   \<and> reducedHash (evict_merged 1) \<noteq> reducedHash (evict_merged 2)
   \<and> is_complete (completer evict_state) (evict_merged 0)"
proof -
  let ?e = "empty_state (ttl_completer 10)"
  let ?s' = "evict_state\<lparr>internal_state := [1]\<rparr>"
  let ?ops = "[Insert 0, Insert 1, Insert 2]"
  have i0: "operator_plus_batch evict_store ?e 0 = Inr (evict_store, S1_state, S1_state, False)"
    and i1: "operator_plus_batch evict_store S1_state 1 =
               Inr (evict_store, evict_state, \<lparr>completer = ttl_completer 10, internal_state = [1], index = [1]\<rparr>, False)"
    by (simp_all add: operator_plus_batch_unfold evict_store_def evict_state_def
        S1_state_def scenario_defs)
  have 1: "find_batch evict_store (internal_state ?e) 0 = None"
    by (simp add: empty_state_def)
  have 2: "members_incomplete evict_store ?e" by (rule members_incomplete_empty)
  have a0: "find_batch evict_store (internal_state S1_state) 1 = None"
    "\<not> is_complete (completer ?e) (evict_store 0)"
    "\<not> is_complete (completer S1_state) (evict_store 1)"
    "find_batch evict_store (internal_state evict_state) 2 = Some 0"
    by (simp_all add: evict_store_def S1_state_def evict_state_def scenario_defs)
  have 3: "arrivals_incomplete ?ops (evict_store, ?e)"
    using i0 i1 evict_last_insert a0 by simp
  have 4: "run ?ops (evict_store, ?e) = Inr (evict_merged, ?s')"
    using i0 i1 evict_last_insert by simp
  have 6: "unique_hashes evict_store (internal_state evict_state)"
    by (simp add: evict_store_def evict_state_def scenario_defs)
  have mem: "1 \<in> set (internal_state ?s')" "1 \<in> set (getBatches evict_merged ?s')"
    by simp_all
  note A = members_stay_incomplete [of evict_store ?e 0 "ttl_completer 10" ?ops evict_merged ?s']
  note B = members_stay_incomplete [of evict_store evict_state 2 "ttl_completer 10" "[]" evict_store
      evict_state evict_merged ?s' S1_state]
  from A 2 3 4 mem have 5: "\<not> is_complete (completer ?s') (evict_merged 1)"
    by blast
  from B 6 evict_last_insert mem
  have 7: "reducedHash (evict_merged 1) \<noteq> reducedHash (evict_merged 2)"
    and "\<exists>f. internal_state S1_state = [f] \<and> is_complete (completer evict_state) (evict_merged f)"
    by blast+
  then have 8: "is_complete (completer evict_state) (evict_merged 0)"
    by (simp add: S1_state_def)
  from 1 2 3 4 5 6 evict_last_insert 7 8 show ?thesis by (intro conjI)
qed

section \<open>Two insertions of one reduced hash\<close>

lemma accumulate_signatures_closed:
  "distinct (map publicKey ss) \<Longrightarrow>
   fst (accumulate_signatures ss t acc) =
     t\<lparr>signatures := signatures t @ filter (\<lambda>s. publicKey s \<notin> public_keys t) ss\<rparr>"
proof (induction ss arbitrary: t acc)
  case Nil
  then show ?case by simp
next
  case (Cons s ss)
  from Cons.prems have d: "distinct (map publicKey ss)" and n: "publicKey s \<notin> publicKey ` set ss"
    by simp_all
  show ?case
  proof (cases "publicKey s \<in> public_keys t")
    case True
    then have "addSignature t (signedData s) (publicKey s) = (t, False)"
      by (simp add: addSignature_def public_keys_def)
    with Cons.IH [OF d, of t "False \<or> acc"] True show ?thesis by simp
  next
    case False
    let ?t1 = "t\<lparr>signatures := signatures t @ [s]\<rparr>"
    from False have a: "addSignature t (signedData s) (publicKey s) = (?t1, True)"
      by (simp add: addSignature_def public_keys_def)
    have "filter (\<lambda>x. publicKey x \<notin> public_keys ?t1) ss
            = filter (\<lambda>x. publicKey x \<notin> public_keys t) ss"
      using n by (intro filter_cong) (auto simp: public_keys_def image_iff)
    with Cons.IH [OF d, of ?t1 "True \<or> acc"] a False show ?thesis by simp
  qed
qed

lemma accumulate_signatures_merged_tx:
  "distinct (map publicKey (signatures d)) \<Longrightarrow>
   \<exists>r. accumulate_signatures (signatures d) t acc = (merged_tx t d, r)"
  using accumulate_signatures_closed [of "signatures d" t acc]
  by (cases "accumulate_signatures (signatures d) t acc") (simp add: merged_tx_def)

lemma merge_combined_closed:
  "length ds = length ts \<Longrightarrow> list_all (\<lambda>d. distinct (map publicKey (signatures d))) ds \<Longrightarrow>
   \<exists>r. merge_combined ts ds acc = Inr (map (\<lambda>(t, u). merged_tx t u) (zip ts ds), r)"
proof (induction ds ts arbitrary: acc rule: list_induct2)
  case Nil
  then show ?case by simp
next
  case (Cons d ds t ts)
  from Cons.prems have "distinct (map publicKey (signatures d))"
    and rest: "list_all (\<lambda>d. distinct (map publicKey (signatures d))) ds"
    by simp_all
  from accumulate_signatures_merged_tx [OF this(1), of t acc] obtain r1 where
    a: "accumulate_signatures (signatures d) t acc = (merged_tx t d, r1)" by blast
  from Cons.IH [OF rest, of r1] obtain r where
    "merge_combined ts ds r1 = Inr (map (\<lambda>(t, u). merged_tx t u) (zip ts ds), r)" by blast
  with a show ?case by simp
qed

lemma mergeSignaturesInBatch_closed:
  assumes "length (transactions (h b)) = length (transactions (h f))" and "distinct_keys (h b)"
  shows "\<exists>r. mergeSignaturesInBatch h f b = Inr (h(f := merged_batch (h f) (h b)), r)"
  using merge_combined_closed [OF assms(1) assms(2) [unfolded distinct_keys_def], of False]
  by (auto simp: mergeSignaturesInBatch_def merged_batch_def)

lemma mergeSignaturesInBatch_closedD:
  assumes "mergeSignaturesInBatch h f b = Inr (h1, r)" and "distinct_keys (h b)"
  shows "h1 = h(f := merged_batch (h f) (h b))"
    and "length (transactions (h b)) = length (transactions (h f))"
proof -
  show l: "length (transactions (h b)) = length (transactions (h f))"
    using assms(1) by (rule mergeSignaturesInBatch_merged(1))
  from mergeSignaturesInBatch_closed [OF l assms(2)] assms(1)
  show "h1 = h(f := merged_batch (h f) (h b))" by auto
qed

lemma mergeSignaturesInBatch_self: "mergeSignaturesInBatch h f f = Inr (h, False)"
  by (rule mergeSignaturesInBatch_dup) simp_all

lemma public_keys_merged_tx: "public_keys (merged_tx t d) = public_keys t \<union> public_keys d"
  by (auto simp: merged_tx_def public_keys_def)

lemma distinct_sigs: "distinct (map publicKey ss) \<Longrightarrow> distinct ss"
  by (simp add: distinct_map)

lemma merged_tx_commute:
  assumes d1: "distinct (map publicKey (signatures d1))"
    and d2: "distinct (map publicKey (signatures d2))"
    and ag: "signatures_agree d1 d2"
  shows "tx_sim (merged_tx (merged_tx t d1) d2) (merged_tx (merged_tx t d2) d1)"
proof -
  let ?S = "signatures t"
  let ?f1 = "filter (\<lambda>s. publicKey s \<notin> public_keys t) (signatures d1)"
  let ?f2 = "filter (\<lambda>s. publicKey s \<notin> public_keys t) (signatures d2)"
  let ?g2 = "filter (\<lambda>s. publicKey s \<notin> public_keys t \<union> public_keys d1) (signatures d2)"
  let ?g1 = "filter (\<lambda>s. publicKey s \<notin> public_keys t \<union> public_keys d2) (signatures d1)"
  have l: "signatures (merged_tx (merged_tx t d1) d2) = ?S @ ?f1 @ ?g2"
    by (simp add: merged_tx_def [of "merged_tx t d1"] public_keys_merged_tx)
       (simp add: merged_tx_def)
  have r: "signatures (merged_tx (merged_tx t d2) d1) = ?S @ ?f2 @ ?g1"
    by (simp add: merged_tx_def [of "merged_tx t d2"] public_keys_merged_tx)
       (simp add: merged_tx_def)
  have s: "set (?f1 @ ?g2) = set (?f2 @ ?g1)"
    using ag by (auto simp: signatures_agree_def public_keys_def) (metis+)
  have "distinct (?f1 @ ?g2)" "distinct (?f2 @ ?g1)"
    using distinct_sigs [OF d1] distinct_sigs [OF d2] by (auto simp: public_keys_def)
  with s have "length (?f1 @ ?g2) = length (?f2 @ ?g1)"
    by (metis distinct_card)
  with s l r show ?thesis
    by (simp add: tx_sim_def merged_tx_def)
qed

lemma merged_tx_fresh_commute:
  assumes d1: "distinct (map publicKey (signatures d1))"
    and d2: "distinct (map publicKey (signatures d2))"
    and ag: "signatures_agree d1 d2" and q: "quorum d1 = quorum d2"
  shows "tx_sim (merged_tx d1 d2) (merged_tx d2 d1)"
proof -
  let ?l = "signatures d1 @ filter (\<lambda>s. publicKey s \<notin> public_keys d1) (signatures d2)"
  let ?r = "signatures d2 @ filter (\<lambda>s. publicKey s \<notin> public_keys d2) (signatures d1)"
  have s: "set ?l = set ?r"
    using ag by (auto simp: signatures_agree_def public_keys_def) (metis+)
  have "distinct ?l" "distinct ?r"
    using distinct_sigs [OF d1] distinct_sigs [OF d2] by (auto simp: public_keys_def)
  with s have "length ?l = length ?r" by (metis distinct_card)
  with s q show ?thesis by (simp add: tx_sim_def merged_tx_def)
qed

lemma tx_sim_eq: "tx_sim t u \<Longrightarrow> tx_eq t u"
  by (simp add: tx_sim_def tx_eq_def)

lemma batch_sim_eq: "batch_sim b c \<Longrightarrow> batch_eq b c"
  by (auto simp: batch_sim_def batch_eq_def elim: list_all2_mono dest: tx_sim_eq)

lemma length_merged_batch:
  "length (transactions d) = length (transactions b) \<Longrightarrow>
   length (transactions (merged_batch b d)) = length (transactions b)"
  by (simp add: merged_batch_def)

lemma merged_batch_commute:
  assumes l1: "length (transactions b1) = length (transactions m)"
    and l2: "length (transactions b2) = length (transactions m)"
    and d1: "distinct_keys b1" and d2: "distinct_keys b2"
    and ag: "list_all2 signatures_agree (transactions b1) (transactions b2)"
  shows "batch_sim (merged_batch (merged_batch m b1) b2) (merged_batch (merged_batch m b2) b1)"
proof -
  have "tx_sim (transactions (merged_batch (merged_batch m b1) b2) ! i)
               (transactions (merged_batch (merged_batch m b2) b1) ! i)"
    if i: "i < length (transactions m)" for i
  proof -
    from i l1 l2 d1 d2 have
      "distinct (map publicKey (signatures (transactions b1 ! i)))"
      "distinct (map publicKey (signatures (transactions b2 ! i)))"
      by (simp_all add: distinct_keys_def list_all_length)
    moreover from ag i l1 have "signatures_agree (transactions b1 ! i) (transactions b2 ! i)"
      by (simp add: list_all2_conv_all_nth)
    ultimately have "tx_sim (merged_tx (merged_tx (transactions m ! i) (transactions b1 ! i))
                               (transactions b2 ! i))
                            (merged_tx (merged_tx (transactions m ! i) (transactions b2 ! i))
                               (transactions b1 ! i))"
      by (rule merged_tx_commute)
    with i l1 l2 show ?thesis by (simp add: merged_batch_def)
  qed
  with l1 l2 show ?thesis
    by (simp add: batch_sim_def list_all2_conv_all_nth merged_batch_def)
qed

lemma merged_batch_fresh_commute:
  assumes l: "length (transactions b2) = length (transactions b1)"
    and hash: "reducedHash b1 = reducedHash b2"
    and d1: "distinct_keys b1" and d2: "distinct_keys b2"
    and ag: "list_all2 signatures_agree (transactions b1) (transactions b2)"
    and q: "map quorum (transactions b1) = map quorum (transactions b2)"
  shows "batch_sim (merged_batch b1 b2) (merged_batch b2 b1)"
proof -
  have "tx_sim (transactions (merged_batch b1 b2) ! i) (transactions (merged_batch b2 b1) ! i)"
    if i: "i < length (transactions b1)" for i
  proof -
    from i l d1 d2 have
      "distinct (map publicKey (signatures (transactions b1 ! i)))"
      "distinct (map publicKey (signatures (transactions b2 ! i)))"
      by (simp_all add: distinct_keys_def list_all_length)
    moreover from ag i have "signatures_agree (transactions b1 ! i) (transactions b2 ! i)"
      by (simp add: list_all2_conv_all_nth)
    moreover from q i l have "quorum (transactions b1 ! i) = quorum (transactions b2 ! i)"
      by (metis length_map nth_map)
    ultimately have "tx_sim (merged_tx (transactions b1 ! i) (transactions b2 ! i))
                            (merged_tx (transactions b2 ! i) (transactions b1 ! i))"
      by (rule merged_tx_fresh_commute)
    with i l show ?thesis by (simp add: merged_batch_def)
  qed
  with l hash show ?thesis
    by (simp add: batch_sim_def list_all2_conv_all_nth merged_batch_def)
qed

lemma list_all2_insort_key:
  assumes keys: "\<And>x y. R x y \<Longrightarrow> f x = g y"
  shows "list_all2 R xs ys \<Longrightarrow> R a b \<Longrightarrow> list_all2 R (insort_key f a xs) (insort_key g b ys)"
proof (induction xs ys rule: list_all2_induct)
  case Nil
  then show ?case by simp
next
  case (Cons x xs y ys)
  from keys [OF Cons.hyps(1)] keys [OF Cons.prems] Cons show ?case by simp
qed

lemma list_all2_sort_key:
  assumes keys: "\<And>x y. R x y \<Longrightarrow> f x = g y"
  shows "list_all2 R xs ys \<Longrightarrow> list_all2 R (sort_key f xs) (sort_key g ys)"
proof (induction xs ys rule: list_all2_induct)
  case Nil
  then show ?case by simp
next
  case (Cons x xs y ys)
  from list_all2_insort_key [of R f g, OF keys Cons.IH Cons.hyps(1)] show ?case
    by (simp add: sort_key_simps)
qed

lemma find_batch_same_hash:
  "hash_of h b = hash_of h b' \<Longrightarrow> find_batch h xs b = find_batch h xs b'"
  by (induction xs) (auto simp: hash_of_def)

lemma same_batches_refl: "same_batches h xs h xs"
  by (simp add: same_batches_def list_all2_same batch_eq_refl)

lemma same_batches_same_list:
  "(\<And>a. a \<in> set xs \<Longrightarrow> reducedHash (h a) = reducedHash (h' a) \<and> batch_eq (h a) (h' a)) \<Longrightarrow>
   same_batches h xs h' xs"
  by (simp add: same_batches_def list_all2_same)

lemma insert_members_not_alone:
  assumes "find_batch h xs b = Some m" and "mergeSignaturesInBatch h m b = Inr (g, i)"
    and "\<not> completes_alone c h xs b"
  shows "insert_members c h xs b = Inr (g, xs, if i then Some m else None)"
    and "\<not> is_complete c (g m)"
  using assms by (simp_all add: completes_alone_def insert_members_found)

lemma same_hash_swapI:
  "insert_members c h xs b2 = Inr (h2, xs2, r2') \<Longrightarrow>
   insert_members c h2 xs2 b1 = Inr (h21, xs21, r1') \<Longrightarrow>
   same_batches h12 xs12 h21 xs21 \<Longrightarrow>
   \<exists>h2 xs2 r2' h21 xs21 r1'.
     insert_members c h xs b2 = Inr (h2, xs2, r2')
     \<and> insert_members c h2 xs2 b1 = Inr (h21, xs21, r1')
     \<and> same_batches h12 xs12 h21 xs21"
  by blast

lemma insert_members_same_hash_swap:
  assumes k: "hash_of h b1 = hash_of h b2"
    and d1: "distinct_keys (h b1)" and d2: "distinct_keys (h b2)"
    and ag: "list_all2 signatures_agree (transactions (h b1)) (transactions (h b2))"
    and q: "map quorum (transactions (h b1)) = map quorum (transactions (h b2))"
    and inv: "\<And>x y. batch_sim x y \<Longrightarrow> is_complete c x = is_complete c y"
    and a1: "\<not> completes_alone c h xs b1" and a2: "\<not> completes_alone c h xs b2"
    and 1: "insert_members c h xs b1 = Inr (h1, xs1, r1)"
    and 2: "insert_members c h1 xs1 b2 = Inr (h12, xs12, r2)"
  shows "\<exists>h2 xs2 r2' h21 xs21 r1'.
           insert_members c h xs b2 = Inr (h2, xs2, r2')
           \<and> insert_members c h2 xs2 b1 = Inr (h21, xs21, r1')
           \<and> same_batches h12 xs12 h21 xs21"
proof (cases "b1 = b2")
  case True
  with 1 2 have "insert_members c h xs b2 = Inr (h1, xs1, r1)"
    and "insert_members c h1 xs1 b1 = Inr (h12, xs12, r2)" by simp_all
  then show ?thesis using same_batches_refl by (rule same_hash_swapI)
next
  case ne: False
  have fk: "find_batch h xs b2 = find_batch h xs b1"
    using find_batch_same_hash [OF k, of xs] by simp
  have len: "length (transactions (h b2)) = length (transactions (h b1))"
    using ag by (simp add: list_all2_lengthD)
  show ?thesis
  proof (cases "find_batch h xs b1")
    case None
    then have nk: "hash_of h b1 \<notin> hash_of h ` set xs" by (simp add: find_batch_None)
    have b1x: "b1 \<notin> set xs" using nk by blast
    have b2x: "b2 \<notin> set xs" using nk k by (metis imageI)
    from None 1 have h1: "h1 = h" and xs1: "xs1 = xs @ [b1]"
      by (simp_all add: insert_members_def)
    have f2: "find_batch h (xs @ [b1]) b2 = Some b1"
      using None fk k by (simp add: find_batch_append hash_of_def)
    from 2 [unfolded h1 xs1] f2 obtain i where
      m: "mergeSignaturesInBatch h b1 b2 = Inr (h12, i)"
      and xs12: "xs12 = (if is_complete c (h12 b1) then remove1 b1 (xs @ [b1]) else xs @ [b1])"
      by (cases rule: insert_members_cases) auto
    from mergeSignaturesInBatch_closedD [of h b1 b2 h12 i, OF m d2]
    have h12: "h12 = h(b1 := merged_batch (h b1) (h b2))" by simp
    have o1: "insert_members c h xs b2 = Inr (h, xs @ [b2], Some b2)"
      using None fk by (simp add: insert_members_fresh)
    have f1: "find_batch h (xs @ [b2]) b1 = Some b2"
      using None k by (simp add: find_batch_append hash_of_def)
    from mergeSignaturesInBatch_closed [of h b1 b2, OF len [symmetric] d1] obtain i' where
      m': "mergeSignaturesInBatch h b2 b1 = Inr (h(b2 := merged_batch (h b2) (h b1)), i')"
      by blast
    let ?h21 = "h(b2 := merged_batch (h b2) (h b1))"
    let ?xs21 = "if is_complete c (?h21 b2) then remove1 b2 (xs @ [b2]) else xs @ [b2]"
    have o2: "insert_members c h (xs @ [b2]) b1 =
                Inr (?h21, ?xs21, if is_complete c (?h21 b2) \<or> i' then Some b2 else None)"
      using f1 m' by (simp add: insert_members_found)
    have sim: "batch_sim (h12 b1) (?h21 b2)"
      using merged_batch_fresh_commute [of "h b2" "h b1", OF len _ d1 d2 ag q] k
      by (simp add: h12 hash_of_def)
    then have ceq: "is_complete c (h12 b1) = is_complete c (?h21 b2)" by (rule inv)
    have old: "reducedHash (h12 a) = reducedHash (?h21 a) \<and> batch_eq (h12 a) (?h21 a)"
      if "a \<in> set xs" for a
      using that b1x b2x by (auto simp: h12 batch_eq_refl)
    have new: "reducedHash (h12 b1) = reducedHash (?h21 b2) \<and> batch_eq (h12 b1) (?h21 b2)"
      using sim by (simp add: batch_sim_eq) (simp add: batch_sim_def)
    have "same_batches h12 xs12 ?h21 ?xs21"
    proof (cases "is_complete c (h12 b1)")
      case True
      with ceq xs12 b1x b2x have "xs12 = xs" "?xs21 = xs"
        by (simp_all add: remove1_append)
      with old show ?thesis by (simp add: same_batches_def list_all2_same)
    next
      case False
      with ceq xs12 have "xs12 = xs @ [b1]" "?xs21 = xs @ [b2]" by simp_all
      with old new show ?thesis
        by (simp add: same_batches_def list_all2_appendI list_all2_same)
    qed
    with o1 o2 show ?thesis by (rule same_hash_swapI)
  next
    case (Some m)
    then have m: "m \<in> set xs" and mk: "hash_of h m = hash_of h b1"
      by (simp_all add: find_batch_Some)
    from Some fk have Some2: "find_batch h xs b2 = Some m" by simp
    from 1 Some obtain i1 where
      m1: "mergeSignaturesInBatch h m b1 = Inr (h1, i1)"
      by (cases rule: insert_members_cases) auto
    from insert_members_not_alone [OF Some m1 a1] 1
    have xs1: "xs1 = xs" and nc1: "\<not> is_complete c (h1 m)" by simp_all
    have g1: "store_grows h h1" using m1 by (rule mergeSignaturesInBatch_grows)
    have f2: "find_batch h1 xs b2 = Some m"
      using Some2 find_batch_store_grows [OF g1, of xs b2] by simp
    from 2 [unfolded xs1] f2 obtain i2 where
      m12: "mergeSignaturesInBatch h1 m b2 = Inr (h12, i2)"
      and xs12: "xs12 = (if is_complete c (h12 m) then remove1 m xs else xs)"
      by (cases rule: insert_members_cases) auto
    show ?thesis
    proof (cases "m = b1")
      case True
      with m1 have h1: "h1 = h" by (simp add: mergeSignaturesInBatch_self)
      from m12 h1 have mb2: "mergeSignaturesInBatch h m b2 = Inr (h12, i2)" by simp
      from insert_members_not_alone [OF Some2 mb2 a2]
      have o1: "insert_members c h xs b2 = Inr (h12, xs, if i2 then Some m else None)"
        and nc: "\<not> is_complete c (h12 m)" by simp_all
      have g: "store_grows h h12" using mb2 by (rule mergeSignaturesInBatch_grows)
      have "find_batch h12 xs b1 = Some m"
        using Some find_batch_store_grows [OF g, of xs b1] by simp
      moreover have "mergeSignaturesInBatch h12 m b1 = Inr (h12, False)"
        using True by (simp add: mergeSignaturesInBatch_self)
      ultimately have o2: "insert_members c h12 xs b1 = Inr (h12, xs, None)"
        using nc by (simp add: insert_members_found)
      from xs12 nc have "xs12 = xs" by simp
      then have "same_batches h12 xs12 h12 xs" by (simp add: same_batches_refl)
      with o1 o2 show ?thesis by (rule same_hash_swapI)
    next
      case nb1: False
      show ?thesis
      proof (cases "m = b2")
        case True
        with m12 have h12: "h12 = h1" by (simp add: mergeSignaturesInBatch_self)
        have "mergeSignaturesInBatch h m b2 = Inr (h, False)"
          using True by (simp add: mergeSignaturesInBatch_self)
        from insert_members_not_alone [OF Some2 this a2]
        have o1: "insert_members c h xs b2 = Inr (h, xs, None)" by simp
        from 1 xs1 have o2: "insert_members c h xs b1 = Inr (h1, xs, r1)" by simp
        from xs12 nc1 h12 have "xs12 = xs" by simp
        with h12 have "same_batches h12 xs12 h1 xs" by (simp add: same_batches_refl)
        with o1 o2 show ?thesis by (rule same_hash_swapI)
      next
        case nb2: False
        from mergeSignaturesInBatch_closedD [of h m b1 h1 i1, OF m1 d1]
        have h1: "h1 = h(m := merged_batch (h m) (h b1))"
          and l1: "length (transactions (h b1)) = length (transactions (h m))"
          by simp_all
        have hb2: "h1 b2 = h b2" using nb2 by (simp add: h1)
        from mergeSignaturesInBatch_closedD [of h1 m b2 h12 i2, OF m12] d2 hb2
        have h12: "h12 = h(m := merged_batch (merged_batch (h m) (h b1)) (h b2))"
          by (simp add: h1)
        have l2: "length (transactions (h b2)) = length (transactions (h m))"
          using len l1 by simp
        from mergeSignaturesInBatch_closed [of h b2 m, OF l2 d2] obtain j2 where
          m2: "mergeSignaturesInBatch h m b2 = Inr (h(m := merged_batch (h m) (h b2)), j2)"
          by blast
        let ?h2 = "h(m := merged_batch (h m) (h b2))"
        from insert_members_not_alone [OF Some2 m2 a2]
        have o1: "insert_members c h xs b2 = Inr (?h2, xs, if j2 then Some m else None)"
          by simp
        have g2: "store_grows h ?h2" using m2 by (rule mergeSignaturesInBatch_grows)
        have f1: "find_batch ?h2 xs b1 = Some m"
          using Some find_batch_store_grows [OF g2, of xs b1] by simp
        have "length (transactions (?h2 b1)) = length (transactions (?h2 m))"
          using nb1 l1 l2 by (simp add: length_merged_batch)
        moreover have "distinct_keys (?h2 b1)" using nb1 d1 by simp
        ultimately obtain j1 where
          "mergeSignaturesInBatch ?h2 m b1 = Inr (?h2(m := merged_batch (?h2 m) (?h2 b1)), j1)"
          using mergeSignaturesInBatch_closed [of ?h2 b1 m] by blast
        moreover let ?h21 = "h(m := merged_batch (merged_batch (h m) (h b2)) (h b1))"
        have "?h2(m := merged_batch (?h2 m) (?h2 b1)) = ?h21"
          using nb1 by simp
        ultimately have m21: "mergeSignaturesInBatch ?h2 m b1 = Inr (?h21, j1)" by simp
        let ?xs21 = "if is_complete c (?h21 m) then remove1 m xs else xs"
        have o2: "insert_members c ?h2 xs b1 =
                    Inr (?h21, ?xs21, if is_complete c (?h21 m) \<or> j1 then Some m else None)"
          using f1 m21 by (simp add: insert_members_found)
        have sim: "batch_sim (h12 m) (?h21 m)"
          using merged_batch_commute [of "h b1" "h m" "h b2", OF l1 l2 d1 d2 ag] by (simp add: h12)
        then have "is_complete c (h12 m) = is_complete c (?h21 m)" by (rule inv)
        with xs12 have eq: "?xs21 = xs12" by simp
        have "reducedHash (h12 a) = reducedHash (?h21 a) \<and> batch_eq (h12 a) (?h21 a)" for a
          using sim by (cases "a = m") (auto simp: h12 batch_eq_refl batch_sim_eq batch_sim_def)
        then have "same_batches h12 xs12 ?h21 xs12"
          by (intro same_batches_same_list) simp
        with eq have "same_batches h12 xs12 ?h21 ?xs21" by simp
        with o1 o2 show ?thesis by (rule same_hash_swapI)
      qed
    qed
  qed
qed

lemma ttl_completer_sim:
  assumes "batch_sim x y"
  shows "is_complete (ttl_completer n) x = is_complete (ttl_completer n) y"
proof -
  from assms have "list_all2 tx_sim (transactions x) (transactions y)"
    by (simp add: batch_sim_def)
  then have "list_all (\<lambda>tx. quorum tx \<le> length (signatures tx)) (transactions x) =
             list_all (\<lambda>tx. quorum tx \<le> length (signatures tx)) (transactions y)"
    by (induction rule: list_all2_induct) (simp_all add: tx_sim_def)
  then show ?thesis by (simp add: ttl_completer_def)
qed

lemma same_batches_getBatches:
  assumes "same_batches h (internal_state A) h' (internal_state A')"
  shows "list_all2 (\<lambda>l r. batch_eq (h l) (h' r)) (getBatches h A) (getBatches h' A')"
proof -
  let ?R = "\<lambda>a a'. reducedHash (h a) = reducedHash (h' a') \<and> batch_eq (h a) (h' a')"
  have "list_all2 ?R (sort_key (\<lambda>a. reducedHash (h a)) (internal_state A))
          (sort_key (\<lambda>a. reducedHash (h' a)) (internal_state A'))"
    using assms [unfolded same_batches_def] by (intro list_all2_sort_key) simp_all
  then show ?thesis
    unfolding getBatches_def by (rule list_all2_mono) simp
qed

lemma run_pair_same_hash:
  assumes k: "hash_of h b1 = hash_of h b2"
    and d1: "distinct_keys (h b1)" and d2: "distinct_keys (h b2)"
    and ag: "list_all2 signatures_agree (transactions (h b1)) (transactions (h b2))"
    and q: "map quorum (transactions (h b1)) = map quorum (transactions (h b2))"
    and inv: "\<forall>x y. batch_sim x y \<longrightarrow> is_complete (completer A) x = is_complete (completer A) y"
    and a1: "\<not> completes_alone (completer A) h (internal_state A) b1"
    and a2: "\<not> completes_alone (completer A) h (internal_state A) b2"
    and r: "run [Insert b1, Insert b2] (h, A) = Inr (h12, A12)"
  shows "\<exists>h21 A21. run [Insert b2, Insert b1] (h, A) = Inr (h21, A21)
           \<and> list_all2 (\<lambda>l r. batch_eq (h12 l) (h21 r)) (getBatches h12 A12) (getBatches h21 A21)"
proof -
  let ?c = "completer A" and ?xs = "internal_state A"
  from r have "run (map Insert [b1, b2]) (h, A) = Inr (h12, A12)" by simp
  from run_inserts_members [OF this] obtain rs where
    "insert_members_each ?c h ?xs [b1, b2] = Inr (h12, internal_state A12, rs)"
    by blast
  then obtain h1 xs1 r1 r2 where
    1: "insert_members ?c h ?xs b1 = Inr (h1, xs1, r1)"
    and 2: "insert_members ?c h1 xs1 b2 = Inr (h12, internal_state A12, r2)"
    by (auto split: sum.splits)
  have inv': "is_complete ?c x = is_complete ?c y" if "batch_sim x y" for x y
    using inv that by blast
  from insert_members_same_hash_swap [OF k d1 d2 ag q inv' a1 a2 1 2]
  obtain h2 xs2 r2' h21 xs21 r1' where
    3: "insert_members ?c h ?xs b2 = Inr (h2, xs2, r2')"
    and 4: "insert_members ?c h2 xs2 b1 = Inr (h21, xs21, r1')"
    and same: "same_batches h12 (internal_state A12) h21 xs21"
    by blast
  from 3 4 have "\<exists>rs'. insert_members_each ?c h ?xs [b2, b1] = Inr (h21, xs21, rs')"
    by simp
  then obtain rs' where "insert_members_each ?c h ?xs [b2, b1] = Inr (h21, xs21, rs')" ..
  from members_run_inserts [OF this] obtain A21 where
    r': "run (map Insert [b2, b1]) (h, A) = Inr (h21, A21)" and A21: "internal_state A21 = xs21"
    by blast
  from same A21 have "same_batches h12 (internal_state A12) h21 (internal_state A21)" by simp
  then have "list_all2 (\<lambda>l r. batch_eq (h12 l) (h21 r)) (getBatches h12 A12) (getBatches h21 A21)"
    by (rule same_batches_getBatches)
  moreover from r' have "run [Insert b2, Insert b1] (h, A) = Inr (h21, A21)" by simp
  ultimately show ?thesis by blast
qed

lemma run_pair_distinct_hash:
  assumes uniq: "unique_hashes h (internal_state A)"
    and k: "hash_of h b1 \<noteq> hash_of h b2"
    and r: "run [Insert b1, Insert b2] (h, A) = Inr (h12, A12)"
  shows "\<exists>h21 A21. run [Insert b2, Insert b1] (h, A) = Inr (h21, A21)
           \<and> list_all2 (\<lambda>l r. batch_eq (h12 l) (h21 r)) (getBatches h12 A12) (getBatches h21 A21)"
proof -
  have bs: "unique_hashes h [b1, b2]" using k by (simp add: unique_hashes_def)
  have p: "set [b2, b1] = set [b1, b2]" "distinct [b2, b1]"
    using k by auto
  from r have "run (map Insert [b1, b2]) (h, A) = Inr (h12, A12)" by simp
  with insertion_order_distinct_hashes [OF uniq bs p, THEN conjunct1]
  obtain A2 where "run (map Insert [b2, b1]) (h, A) = Inr (h12, A2)"
    and "getBatches h12 A2 = getBatches h12 A12"
    by blast
  then have "run [Insert b2, Insert b1] (h, A) = Inr (h12, A2)"
    and "list_all2 (\<lambda>l r. batch_eq (h12 l) (h12 r)) (getBatches h12 A12) (getBatches h12 A2)"
    by (simp_all add: list_all2_same batch_eq_refl)
  then show ?thesis by blast
qed

section \<open>Order of two insertions\<close>

text \<open>
  Claim C6, as stated, fails for two batches of the same reduced hash. The state holds
  \<open>b\<close> signed by \<open>pk1\<close>, with a quorum of two (the state S1 reaches by its first insertion).
  Inserting \<open>b\<close> signed by \<open>pk2\<close> and then \<open>b\<close> signed by \<open>pk1\<close> completes and evicts the
  member and then stores the second batch as a new member; in the other order the first
  insertion adds nothing, the second completes and evicts, and no member is left. The
  insertion of the batch signed by \<open>pk2\<close> alone completes the member.
\<close>

theorem same_hash_insertion_order_matters:
  "run [Insert 1, Insert 2] (same_hash_store, S1_state) =
     Inr (same_hash_merged, \<lparr>completer = ttl_completer 10, internal_state = [2], index = [0, 2]\<rparr>)
   \<and> run [Insert 2, Insert 1] (same_hash_store, S1_state) =
     Inr (same_hash_merged, \<lparr>completer = ttl_completer 10, internal_state = [], index = [0]\<rparr>)
   \<and> getBatches same_hash_merged \<lparr>completer = ttl_completer 10, internal_state = [2], index = [0, 2]\<rparr> = [2]
   \<and> getBatches same_hash_merged \<lparr>completer = ttl_completer 10, internal_state = [], index = [0]\<rparr> = []
   \<and> completes_alone (completer S1_state) same_hash_store (internal_state S1_state) 1"
  by (simp add: operator_plus_batch_unfold same_hash_store_def same_hash_merged_def S1_state_def
      completes_alone_def scenario_defs)

text \<open>
  The order also shows when the two batches carry different signed data under one public
  key: \<^verbatim>\<open>addSignature\<close> keeps the signature that arrives first. The member, signed by \<open>pk1\<close>
  with a quorum of four, ends with the one or the other signature of \<open>pk2\<close>, and the two
  results are not structurally equal.
\<close>

lemma conflicting_signatures_order_matters:
  "run [Insert 1, Insert 2] (conflict_store, S1_state) =
     Inr (conflict_store(0 := mk_batch ''b1'' 0 4 [''pk1'', ''pk2'']), S1_state)
   \<and> run [Insert 2, Insert 1] (conflict_store, S1_state) =
     Inr (conflict_store(0 :=
            \<lparr>reducedHash = ''b1'', created_at = 0,
             transactions = [\<lparr>quorum = 4,
               signatures = [sig_of ''pk1'',
                             \<lparr>publicKey = ''pk2'', signedData = ''signed otherwise''\<rparr>]\<rparr>]\<rparr>),
          S1_state)
   \<and> getBatches (conflict_store(0 := mk_batch ''b1'' 0 4 [''pk1'', ''pk2''])) S1_state = [0]
   \<and> \<not> batch_eq (mk_batch ''b1'' 0 4 [''pk1'', ''pk2''])
        \<lparr>reducedHash = ''b1'', created_at = 0,
         transactions = [\<lparr>quorum = 4,
           signatures = [sig_of ''pk1'',
                         \<lparr>publicKey = ''pk2'', signedData = ''signed otherwise''\<rparr>]\<rparr>]\<rparr>
   \<and> \<not> list_all2 signatures_agree (transactions (conflict_store 1)) (transactions (conflict_store 2))"
  by (simp add: operator_plus_batch_unfold conflict_store_def S1_state_def batch_eq_def tx_eq_def
      signatures_agree_def doubleton_eq_iff scenario_defs)

text \<open>
  Claim C6, amended. Take a state \<open>A\<close> whose members have pairwise distinct reduced hashes
  and two batches \<open>b1\<close>, \<open>b2\<close>. If their reduced hashes differ, or if they are one and the
  same object, nothing more is asked. If they are two objects of the same reduced hash,
  then: no transaction of either carries two signatures of one public key; a public key that signed the transaction at the same position of both
  has the same signature on both; the transactions have the same quorums position by
  position; the completer gives the same verdict on batches that differ only in the order
  of their signatures; and neither insertion alone completes the member of that reduced
  hash. Then, if inserting \<open>b1\<close> and then \<open>b2\<close> succeeds, so does inserting \<open>b2\<close> and then
  \<open>b1\<close>, and the two sequences \<open>getBatches\<close> have the same length and hold structurally equal
  batches position by position (the stores may differ in the order of the signatures of a
  member, and, when no member had the reduced hash, in which of the two objects became the
  member).

  For any number of batches \<open>bs\<close> of pairwise distinct reduced hashes and a reordering
  \<open>bs'\<close> of them, inserting them in either order gives the same store and the same sequence
  \<open>getBatches\<close>; and \<^verbatim>\<open>operator+=\<close> with a state whose members are \<open>bs\<close> gives the same store,
  the same members and the same reported batches whatever the order in which the members
  are folded in. The members of a state have pairwise distinct reduced hashes, so this
  covers every merge.
\<close>

theorem insertion_order_independent:
  assumes uniq: "unique_hashes h (internal_state A)"
    and same: "b1 \<noteq> b2 \<and> hash_of h b1 = hash_of h b2 \<longrightarrow>
        distinct_keys (h b1) \<and> distinct_keys (h b2)
        \<and> list_all2 signatures_agree (transactions (h b1)) (transactions (h b2))
        \<and> map quorum (transactions (h b1)) = map quorum (transactions (h b2))
        \<and> (\<forall>x y. batch_sim x y \<longrightarrow> is_complete (completer A) x = is_complete (completer A) y)
        \<and> \<not> completes_alone (completer A) h (internal_state A) b1
        \<and> \<not> completes_alone (completer A) h (internal_state A) b2"
  shows "(\<forall>h12 A12. run [Insert b1, Insert b2] (h, A) = Inr (h12, A12) \<longrightarrow>
            (\<exists>h21 A21. run [Insert b2, Insert b1] (h, A) = Inr (h21, A21)
               \<and> list_all2 (\<lambda>l r. batch_eq (h12 l) (h21 r))
                    (getBatches h12 A12) (getBatches h21 A21)))
         \<and> (unique_hashes h bs \<and> set bs' = set bs \<and> distinct bs' \<longrightarrow>
              (\<forall>h1 A1. run (map Insert bs) (h, A) = Inr (h1, A1) \<longrightarrow>
                 (\<exists>A2. run (map Insert bs') (h, A) = Inr (h1, A2)
                      \<and> getBatches h1 A2 = getBatches h1 A1))
              \<and> (\<forall>rhs rhs' h1 A1 R1.
                   internal_state rhs = bs \<longrightarrow> internal_state rhs' = bs' \<longrightarrow>
                   operator_plus_state h A rhs = Inr (h1, A1, R1) \<longrightarrow>
                   (\<exists>A2 R2. operator_plus_state h A rhs' = Inr (h1, A2, R2)
                      \<and> getBatches h1 A2 = getBatches h1 A1
                      \<and> getBatches h1 R2 = getBatches h1 R1)))"
proof (intro conjI allI impI)
  fix h12 A12
  assume r: "run [Insert b1, Insert b2] (h, A) = Inr (h12, A12)"
  show "\<exists>h21 A21. run [Insert b2, Insert b1] (h, A) = Inr (h21, A21)
          \<and> list_all2 (\<lambda>l r. batch_eq (h12 l) (h21 r)) (getBatches h12 A12) (getBatches h21 A21)"
  proof (cases "b1 = b2")
    case True
    with r have "run [Insert b2, Insert b1] (h, A) = Inr (h12, A12)" by simp
    moreover have "list_all2 (\<lambda>l r. batch_eq (h12 l) (h12 r))
        (getBatches h12 A12) (getBatches h12 A12)"
      by (simp add: list_all2_same batch_eq_refl)
    ultimately show ?thesis by blast
  next
    case ne: False
    show ?thesis
    proof (cases "hash_of h b1 = hash_of h b2")
      case True
      with ne same r show ?thesis by (intro run_pair_same_hash) simp_all
    next
      case False
      with uniq show ?thesis using r by (rule run_pair_distinct_hash)
    qed
  qed
next
  assume p: "unique_hashes h bs \<and> set bs' = set bs \<and> distinct bs'"
  then have bs: "unique_hashes h bs" and perm: "set bs' = set bs" "distinct bs'" by simp_all
  note old = insertion_order_distinct_hashes [OF uniq bs perm]
  {
    fix h1 A1
    assume "run (map Insert bs) (h, A) = Inr (h1, A1)"
    with old [THEN conjunct1]
    show "\<exists>A2. run (map Insert bs') (h, A) = Inr (h1, A2) \<and> getBatches h1 A2 = getBatches h1 A1"
      by blast
  }
  {
    fix rhs rhs' :: mst_state and h1 A1 R1
    assume "internal_state rhs = bs" "internal_state rhs' = bs'"
      "operator_plus_state h A rhs = Inr (h1, A1, R1)"
    with old [THEN conjunct2]
    show "\<exists>A2 R2. operator_plus_state h A rhs' = Inr (h1, A2, R2)
            \<and> getBatches h1 A2 = getBatches h1 A1 \<and> getBatches h1 R2 = getBatches h1 R1"
      by blast
  }
qed

theorem insertion_order_independent_witness:
  "unique_hashes order_store (internal_state S1_state)
   \<and> (1 :: addr) \<noteq> 2
   \<and> hash_of order_store 1 = hash_of order_store 2
   \<and> distinct_keys (order_store 1) \<and> distinct_keys (order_store 2)
   \<and> list_all2 signatures_agree (transactions (order_store 1)) (transactions (order_store 2))
   \<and> map quorum (transactions (order_store 1)) = map quorum (transactions (order_store 2))
   \<and> \<not> completes_alone (completer S1_state) order_store (internal_state S1_state) 1
   \<and> \<not> completes_alone (completer S1_state) order_store (internal_state S1_state) 2
   \<and> run [Insert 1, Insert 2] (order_store, S1_state) =
       Inr (order_store(0 := mk_batch ''b1'' 0 4 [''pk1'', ''pk2'', ''pk3'']), S1_state)
   \<and> run [Insert 2, Insert 1] (order_store, S1_state) =
       Inr (order_store(0 := mk_batch ''b1'' 0 4 [''pk1'', ''pk3'', ''pk2'']), S1_state)
   \<and> batch_eq (mk_batch ''b1'' 0 4 [''pk1'', ''pk2'', ''pk3''])
        (mk_batch ''b1'' 0 4 [''pk1'', ''pk3'', ''pk2''])
   \<and> unique_hashes order_store [1, 3]
   \<and> set [3, 1] = set [1, 3 :: addr]
   \<and> distinct [3, 1 :: addr]
   \<and> run (map Insert [1, 3]) (order_store, S1_state) =
       Inr (order_store(0 := mk_batch ''b1'' 0 4 [''pk1'', ''pk2'']),
            \<lparr>completer = ttl_completer 10, internal_state = [0, 3], index = [0, 3]\<rparr>)
   \<and> getBatches (order_store(0 := mk_batch ''b1'' 0 4 [''pk1'', ''pk2'']))
         (snd (projr (run (map Insert [3, 1]) (order_store, S1_state)))) = [0, 3]"
proof -
  let ?m12 = "order_store(0 := mk_batch ''b1'' 0 4 [''pk1'', ''pk2'', ''pk3''])"
  let ?m21 = "order_store(0 := mk_batch ''b1'' 0 4 [''pk1'', ''pk3'', ''pk2''])"
  let ?m13 = "order_store(0 := mk_batch ''b1'' 0 4 [''pk1'', ''pk2''])"
  let ?A13 = "\<lparr>completer = ttl_completer 10, internal_state = [0, 3], index = [0, 3]\<rparr>"
  have 1: "unique_hashes order_store (internal_state S1_state)"
    and 2: "hash_of order_store 1 = hash_of order_store 2"
    by (simp_all add: order_store_def S1_state_def scenario_defs)
  have ne: "(1 :: addr) \<noteq> 2" by simp
  have 3: "distinct_keys (order_store 1)" "distinct_keys (order_store 2)"
    by (simp_all add: order_store_def distinct_keys_def scenario_defs)
  have 4: "list_all2 signatures_agree (transactions (order_store 1)) (transactions (order_store 2))"
    by (simp add: order_store_def signatures_agree_def scenario_defs)
  have 5: "map quorum (transactions (order_store 1)) = map quorum (transactions (order_store 2))"
    by (simp add: order_store_def scenario_defs)
  have 6: "\<not> completes_alone (completer S1_state) order_store (internal_state S1_state) 1"
    "\<not> completes_alone (completer S1_state) order_store (internal_state S1_state) 2"
    by (simp_all add: completes_alone_def order_store_def S1_state_def scenario_defs)
  have inv: "\<forall>x y. batch_sim x y \<longrightarrow>
      is_complete (completer S1_state) x = is_complete (completer S1_state) y"
    using ttl_completer_sim [of _ _ 10] by (simp add: S1_state_def)
  have 7: "run [Insert 1, Insert 2] (order_store, S1_state) = Inr (?m12, S1_state)"
    by (simp add: operator_plus_batch_unfold order_store_def S1_state_def scenario_defs)
  have 8: "run [Insert 2, Insert 1] (order_store, S1_state) = Inr (?m21, S1_state)"
    by (simp add: operator_plus_batch_unfold order_store_def S1_state_def scenario_defs)
  have 9: "unique_hashes order_store [1, 3]"
    by (simp add: order_store_def scenario_defs)
  have 10: "set [3, 1] = set [1, 3 :: addr]" and 11: "distinct [3, 1 :: addr]"
    by auto
  have 12: "run (map Insert [1, 3]) (order_store, S1_state) = Inr (?m13, ?A13)"
    by (simp add: operator_plus_batch_unfold order_store_def S1_state_def scenario_defs)
  have g12: "getBatches ?m12 S1_state = [0]" and g21: "getBatches ?m21 S1_state = [0]"
    by (simp_all add: getBatches_def S1_state_def)
  have g13: "getBatches ?m13 ?A13 = [0, 3]"
    by (simp add: getBatches_def order_store_def store_of_def mk_batch_def)
  note T = insertion_order_independent [of order_store S1_state 1 2 "[1, 3]" "[3, 1]"]
  from T [THEN conjunct1] 1 2 3 4 5 6 inv 7
  obtain h21 A21 where r21: "run [Insert 2, Insert 1] (order_store, S1_state) = Inr (h21, A21)"
    and eq: "list_all2 (\<lambda>l r. batch_eq (?m12 l) (h21 r)) (getBatches ?m12 S1_state) (getBatches h21 A21)"
    by blast
  from r21 8 have "h21 = ?m21" "A21 = S1_state" by simp_all
  with eq have "list_all2 (\<lambda>l r. batch_eq (?m12 l) (?m21 r)) [0] [0]"
    by (simp only: g12 g21)
  then have 13: "batch_eq (mk_batch ''b1'' 0 4 [''pk1'', ''pk2'', ''pk3''])
        (mk_batch ''b1'' 0 4 [''pk1'', ''pk3'', ''pk2''])"
    by simp
  from T [THEN conjunct2] 1 2 3 4 5 6 inv 9 10 11 12
  obtain A2 where r31: "run (map Insert [3, 1]) (order_store, S1_state) = Inr (?m13, A2)"
    and "getBatches ?m13 A2 = getBatches ?m13 ?A13"
    by blast
  with g13 have "getBatches ?m13 A2 = [0, 3]" by (simp only:)
  with r31 have 14: "getBatches ?m13
         (snd (projr (run (map Insert [3, 1]) (order_store, S1_state)))) = [0, 3]"
    by simp
  from 1 ne 2 3 4 5 6 7 8 13 9 10 11 12 14 show ?thesis by (intro conjI)
qed

end
